theory Spec2Isabelle
  imports Main "HOL-Library.Multiset"
begin

section \<open>The dataset object\<close>

text \<open>
  \<^verbatim>\<open>ExtendedIterableDataset\<close> of \<^verbatim>\<open>src/torch_exid/exid.py\<close> keeps its configuration and its
  run state in one object; the record has the attributes that \<^verbatim>\<open>__init__\<close> assigns, under
  their names. Python integers are unbounded, hence \<open>int\<close>. A transform is taken to be a
  pure total function on items.
\<close>

datatype error = ValueError | NotImplementedError | AttributeError

record 'a dataset =
  shuffle_buffer :: int
  shuffle_seed :: int
  buffer :: "'a list"
  offset :: int
  limit :: int
  counter :: int
  transforms :: "('a \<Rightarrow> 'a) list"

text \<open>
  \<^verbatim>\<open>not transforms\<close> holds for \<^verbatim>\<open>None\<close> and for the empty list.
\<close>

fun falsy :: "'b list option \<Rightarrow> bool" where
  "falsy None = True"
| "falsy (Some []) = True"
| "falsy (Some (t # ts)) = False"

text \<open>
  \<^verbatim>\<open>__init__\<close>, lines 30 to 66. The last argument stands for the value that
  \<^verbatim>\<open>Random().randint(0, 999331)\<close> draws when no seed is given. The extra positional and
  keyword arguments handed on to the base class are left out.
\<close>

definition init ::
  "int \<Rightarrow> int option \<Rightarrow> int \<Rightarrow> int \<Rightarrow> ('a \<Rightarrow> 'a) list option \<Rightarrow> bool \<Rightarrow> int
    \<Rightarrow> error + 'a dataset" where
  "init shuffle_buffer' shuffle_seed' offset' limit' transforms' transforms_required randint =
     (if transforms_required \<and> falsy transforms' then Inl ValueError
      else Inr \<lparr>shuffle_buffer = shuffle_buffer',
                shuffle_seed = (case shuffle_seed' of Some s \<Rightarrow> s | None \<Rightarrow> randint),
                buffer = [],
                offset = offset',
                limit = limit',
                counter = 0,
                transforms = (case transforms' of Some ts \<Rightarrow> ts | None \<Rightarrow> [])\<rparr>)"

text \<open>The property \<^verbatim>\<open>limit_allows_one_more\<close>, lines 79 to 93.\<close>

definition limit_allows_one_more :: "'a dataset \<Rightarrow> bool" where
  "limit_allows_one_more self =
     (if limit self < 0 then True else counter self < limit self + offset self)"

text \<open>\<^verbatim>\<open>transform_x\<close>, lines 95 to 112: the transforms are applied from left to right.\<close>

definition transform_x :: "'a dataset \<Rightarrow> 'a \<Rightarrow> 'a" where
  "transform_x self x = fold (\<lambda>transform x. transform x) (transforms self) x"

text \<open>The reset at the end of \<^verbatim>\<open>generator_with_buffer\<close>, lines 193 to 195.\<close>

definition reset :: "'a dataset \<Rightarrow> 'a dataset" where
  "reset self = self\<lparr>counter := 0, buffer := []\<rparr>"

section \<open>The shuffle of the standard library\<close>

text \<open>
  Modelled from the spec: \<^verbatim>\<open>random.Random\<close> belongs to the Python standard library and is
  not among the sources. Section 9 of the specification asks for a seeded generator that
  can be re-seeded on demand and for the Fisher-Yates exchange. The generator is a parameter:
  \<open>Random seed\<close> is the state of a generator made from a seed, and \<open>randbelow r n\<close> draws
  a number below \<open>n\<close> and gives the next state. The exchange loop is the one of
  \<^verbatim>\<open>Random.shuffle\<close>: for \<open>i\<close> from the last index down to 1, draw \<open>j = randbelow (i + 1)\<close>
  and swap the entries at \<open>i\<close> and \<open>j\<close>.
\<close>

record 'r prng =
  Random :: "int \<Rightarrow> 'r"
  randbelow :: "'r \<Rightarrow> nat \<Rightarrow> nat \<times> 'r"

primrec shuffle_loop :: "'r prng \<Rightarrow> nat \<Rightarrow> 'r \<Rightarrow> 'a list \<Rightarrow> 'a list" where
  "shuffle_loop P 0 r xs = xs"
| "shuffle_loop P (Suc i) r xs =
     (case randbelow P r (Suc i + 1) of
        (j, r') \<Rightarrow> shuffle_loop P i r' (xs[Suc i := xs ! j, j := xs ! Suc i]))"

definition shuffle :: "'r prng \<Rightarrow> int \<Rightarrow> 'a list \<Rightarrow> 'a list" where
  "shuffle P seed xs = shuffle_loop P (length xs - 1) (Random P seed) xs"

text \<open>The library's contract for a draw: the number is below the bound.\<close>

definition prng_ok :: "'r prng \<Rightarrow> bool" where
  "prng_ok P = (\<forall>r n. 0 < n \<longrightarrow> fst (randbelow P r n) < n)"

text \<open>The order in which a shuffle with this seed lists the indices of a list of length \<open>n\<close>.\<close>

definition shuffle_order :: "'r prng \<Rightarrow> int \<Rightarrow> nat \<Rightarrow> nat list" where
  "shuffle_order P seed n = shuffle P seed [0..<n]"

section \<open>The item source\<close>

text \<open>
  A subclass supplies \<^verbatim>\<open>generator()\<close>. Every call returns a new generator object in its
  first state; \<^verbatim>\<open>next(gen)\<close> gives an item and the following state, or ends with
  \<^verbatim>\<open>StopIteration\<close>, or raises another exception.
\<close>

datatype ('a, 'g, 'e) pull = Item 'a 'g | StopIteration | Raise 'e

record ('a, 'g, 'e) source =
  generator :: 'g
  advance :: "'g \<Rightarrow> ('a, 'g, 'e) pull"

section \<open>The generators of a traversal\<close>

text \<open>
  A traversal is a stack of suspended generators. \<open>pc\<close> says where they stand:
  \<^item> \<open>Pulling\<close>: \<^verbatim>\<open>generator_with_conditions\<close> is at the top of its \<^verbatim>\<open>while True\<close>;
  \<^item> \<open>Yielded\<close>: it is suspended at its \<^verbatim>\<open>yield\<close>, so that \<^verbatim>\<open>self.counter += 1\<close> comes next;
  \<^item> \<open>Flushing i final\<close>: \<^verbatim>\<open>flush_buffer\<close> is inside its \<^verbatim>\<open>for\<close> loop and has yielded
    \<open>i\<close> entries of the buffer; \<open>final\<close> tells the call of line 187 from that of line 184;
  \<^item> \<open>Drained\<close>: the \<^verbatim>\<open>for\<close> loop of \<^verbatim>\<open>generator_with_buffer\<close> is over;
  \<^item> \<open>Stopped\<close>: the outer generator has returned or has died of an exception.

  \<open>pulls\<close> counts the calls of \<^verbatim>\<open>next(gen)\<close>; the code has no such variable, it is there
  for the statements about the number of pulls.
\<close>

datatype pc = Pulling | Yielded | Flushing nat bool | Drained | Stopped

record ('a, 'g) frames =
  self :: "'a dataset"
  gen :: 'g
  at :: pc
  pulls :: nat

datatype ('a, 'e) signal = Yield 'a | Continue | Break | Propagate 'e

text \<open>
  One pass through the body of the \<^verbatim>\<open>while True\<close> of \<^verbatim>\<open>generator_with_conditions\<close>,
  lines 149 to 165, up to its \<^verbatim>\<open>yield\<close>, \<^verbatim>\<open>continue\<close> or \<^verbatim>\<open>break\<close>. An exception that is
  not \<^verbatim>\<open>StopIteration\<close> leaves the generator.
\<close>

definition generator_with_conditions ::
  "('a, 'g, 'e) source \<Rightarrow> ('a, 'g) frames \<Rightarrow> ('a, 'e) signal \<times> ('a, 'g) frames" where
  "generator_with_conditions src m =
     (if \<not> limit_allows_one_more (self m) then (Break, m)
      else case advance src (gen m) of
          StopIteration \<Rightarrow> (Break, m\<lparr>pulls := pulls m + 1\<rparr>)
        | Raise e \<Rightarrow> (Propagate e, m\<lparr>pulls := pulls m + 1\<rparr>)
        | Item x g' \<Rightarrow>
            if counter (self m) < offset (self m)
            then (Continue, m\<lparr>self := (self m)\<lparr>counter := counter (self m) + 1\<rparr>,
                               gen := g', pulls := pulls m + 1\<rparr>)
            else (Yield (transform_x (self m) x), m\<lparr>gen := g', pulls := pulls m + 1\<rparr>))"

text \<open>
  \<^verbatim>\<open>flush_buffer\<close>, lines 114 to 129. Its first line shuffles the buffer in place with a
  generator made from the seed; the loop and the final \<^verbatim>\<open>self.buffer = []\<close> are the
  \<open>Flushing\<close> steps below.
\<close>

definition flush_buffer :: "'r prng \<Rightarrow> bool \<Rightarrow> ('a, 'g) frames \<Rightarrow> ('a, 'g) frames" where
  "flush_buffer P final m =
     m\<lparr>self := (self m)\<lparr>buffer := shuffle P (shuffle_seed (self m)) (buffer (self m))\<rparr>,
       at := Flushing 0 final\<rparr>"

datatype ('a, 'e) event = Emit 'a | Tau | End | Failure 'e

text \<open>
  One step of \<^verbatim>\<open>generator_with_buffer\<close>, lines 179 to 195, together with the generators
  it drives. \<open>Emit\<close> hands an item to the consumer, \<open>End\<close> is the end of the sequence,
  \<open>Failure\<close> an exception that reaches the consumer, \<open>Tau\<close> a step the consumer does not see.
\<close>

definition step ::
  "'r prng \<Rightarrow> ('a, 'g, 'e) source \<Rightarrow> ('a, 'g) frames \<Rightarrow> ('a, 'e) event \<times> ('a, 'g) frames" where
  "step P src m =
     (case at m of
        Pulling \<Rightarrow>
          (case generator_with_conditions src m of
             (Break, m') \<Rightarrow> (Tau, m'\<lparr>at := Drained\<rparr>)
           | (Propagate e, m') \<Rightarrow> (Failure e, m'\<lparr>at := Stopped\<rparr>)
           | (Continue, m') \<Rightarrow> (Tau, m')
           | (Yield x, m') \<Rightarrow>
               if shuffle_buffer (self m') > 1
               then (let m'' = m'\<lparr>self := (self m')\<lparr>buffer := buffer (self m') @ [x]\<rparr>\<rparr>
                     in if int (length (buffer (self m''))) \<ge> shuffle_buffer (self m'')
                        then (Tau, flush_buffer P False m'')
                        else (Tau, m''\<lparr>at := Yielded\<rparr>))
               else (Emit x, m'\<lparr>at := Yielded\<rparr>))
      | Yielded \<Rightarrow>
          (Tau, m\<lparr>self := (self m)\<lparr>counter := counter (self m) + 1\<rparr>, at := Pulling\<rparr>)
      | Flushing i final \<Rightarrow>
          if i < length (buffer (self m))
          then (Emit (buffer (self m) ! i), m\<lparr>at := Flushing (i + 1) final\<rparr>)
          else if final
          then (End, m\<lparr>self := reset ((self m)\<lparr>buffer := []\<rparr>), at := Stopped\<rparr>)
          else (Tau, m\<lparr>self := (self m)\<lparr>buffer := []\<rparr>, at := Yielded\<rparr>)
      | Drained \<Rightarrow>
          if shuffle_buffer (self m) > 1 \<and> length (buffer (self m)) > 0
          then (Tau, flush_buffer P True m)
          else (End, m\<lparr>self := reset (self m), at := Stopped\<rparr>)
      | Stopped \<Rightarrow> (End, m))"

text \<open>
  \<^verbatim>\<open>__iter__\<close>, lines 197 to 208, returns the outer generator before its first step; the
  first step calls \<^verbatim>\<open>self.generator()\<close>.
\<close>

definition iter :: "('a, 'g, 'e) source \<Rightarrow> 'a dataset \<Rightarrow> ('a, 'g) frames" where
  "iter src ds = \<lparr>self = ds, gen = generator src, at = Pulling, pulls = 0\<rparr>"

text \<open>
  The consumer that runs a traversal to its end, as \<^verbatim>\<open>list(ds)\<close> does: the items in the
  order of their arrival, the exception that ended the traversal if one did, and the frames
  at the end. A traversal may go on forever; \<open>None\<close> says that the fuel did not suffice.
\<close>

fun run ::
  "'r prng \<Rightarrow> ('a, 'g, 'e) source \<Rightarrow> nat \<Rightarrow> ('a, 'g) frames
    \<Rightarrow> ('a list \<times> 'e option \<times> ('a, 'g) frames) option" where
  "run P src 0 m = None"
| "run P src (Suc n) m =
     (case step P src m of
        (Tau, m') \<Rightarrow> run P src n m'
      | (Emit x, m') \<Rightarrow>
          (case run P src n m' of
             None \<Rightarrow> None
           | Some (xs, r) \<Rightarrow> Some (x # xs, r))
      | (End, m') \<Rightarrow> Some ([], None, m')
      | (Failure e, m') \<Rightarrow> Some ([], Some e, m'))"

definition traverse ::
  "'r prng \<Rightarrow> ('a, 'g, 'e) source \<Rightarrow> nat \<Rightarrow> 'a dataset
    \<Rightarrow> ('a list \<times> 'e option \<times> ('a, 'g) frames) option" where
  "traverse P src n ds = run P src n (iter src ds)"

text \<open>The frames after \<open>k\<close> steps.\<close>

primrec after :: "'r prng \<Rightarrow> ('a, 'g, 'e) source \<Rightarrow> nat \<Rightarrow> ('a, 'g) frames \<Rightarrow> ('a, 'g) frames" where
  "after P src 0 m = m"
| "after P src (Suc k) m = after P src k (snd (step P src m))"

text \<open>What the consumer saw of a traversal, and what the traversal left behind in the object.\<close>

definition outcome ::
  "('a list \<times> 'e option \<times> ('a, 'g) frames) option \<Rightarrow> ('a list \<times> 'e option) option" where
  "outcome res = map_option (\<lambda>(xs, e, m). (xs, e)) res"

definition leftover ::
  "('a list \<times> 'e option \<times> ('a, 'g) frames) option \<Rightarrow> (int \<times> 'a list \<times> nat) option" where
  "leftover res = map_option (\<lambda>(xs, e, m). (counter (self m), buffer (self m), pulls m)) res"

text \<open>
  The bound on the buffer: the shuffle buffer has room for at least one item, the buffer
  never holds more than \<open>shuffle_buffer\<close> items, and it holds fewer outside a flush.
\<close>

definition within_bound :: "('a, 'g) frames \<Rightarrow> bool" where
  "within_bound m =
     (1 \<le> shuffle_buffer (self m)
      \<and> int (length (buffer (self m))) \<le> shuffle_buffer (self m)
      \<and> (case at m of
            Flushing i final \<Rightarrow> True
          | Pulling \<Rightarrow> int (length (buffer (self m))) < shuffle_buffer (self m)
          | Yielded \<Rightarrow> int (length (buffer (self m))) < shuffle_buffer (self m)
          | Drained \<Rightarrow> int (length (buffer (self m))) < shuffle_buffer (self m)
          | Stopped \<Rightarrow> int (length (buffer (self m))) < shuffle_buffer (self m)))"

text \<open>
  The frames of the traversal that the same object would be in without a shuffle buffer:
  nothing is buffered, and where the buffered traversal is flushing, the plain one has
  handed on its last item already.
\<close>

definition unbuffered :: "('a, 'g) frames \<Rightarrow> ('a, 'g) frames" where
  "unbuffered m =
     m\<lparr>self := (self m)\<lparr>shuffle_buffer := 1, buffer := []\<rparr>,
       at := (case at m of
                Flushing i final \<Rightarrow> if final then Drained else Yielded
              | Pulling \<Rightarrow> Pulling
              | Yielded \<Rightarrow> Yielded
              | Drained \<Rightarrow> Drained
              | Stopped \<Rightarrow> Stopped)\<rparr>"

text \<open>The source gives at least \<open>k\<close> more items when pulled from the state \<open>g\<close>.\<close>

primrec supplies :: "('a, 'g, 'e) source \<Rightarrow> 'g \<Rightarrow> nat \<Rightarrow> bool" where
  "supplies src g 0 = True"
| "supplies src g (Suc k) =
     (case advance src g of Item x g' \<Rightarrow> supplies src g' k | StopIteration \<Rightarrow> False
      | Raise e \<Rightarrow> False)"

text \<open>
  A list cut into consecutive pieces of \<open>k\<close> entries, the last piece holding what is left:
  the contents of the buffer at the successive flushes of a traversal.
\<close>

function chunks :: "nat \<Rightarrow> 'a list \<Rightarrow> 'a list list" where
  "chunks k xs =
     (if xs = [] then [] else if k = 0 then [xs] else take k xs # chunks k (drop k xs))"
  by pat_completeness auto
termination
  by (relation "measure (\<lambda>(k, xs). length xs)") auto

declare chunks.simps [simp del]

text \<open>What a run of flushes hands out of a list of kept items: every piece shuffled by itself.\<close>

definition bursts :: "'r prng \<Rightarrow> int \<Rightarrow> nat \<Rightarrow> 'a list \<Rightarrow> 'a list" where
  "bursts P seed k xs = concat (map (shuffle P seed) (chunks k xs))"

text \<open>
  What a buffered traversal has yet to hand out, given the items that the plain traversal
  has yet to hand out: the rest of the flush under way, if there is one, and the bursts of
  what is buffered or still to be kept.
\<close>

definition remaining :: "'r prng \<Rightarrow> ('a, 'g) frames \<Rightarrow> 'a list \<Rightarrow> 'a list" where
  "remaining P m kept =
     (case at m of
        Flushing i final \<Rightarrow>
          drop i (buffer (self m))
            @ bursts P (shuffle_seed (self m)) (nat (shuffle_buffer (self m))) kept
      | Pulling \<Rightarrow>
          bursts P (shuffle_seed (self m)) (nat (shuffle_buffer (self m))) (buffer (self m) @ kept)
      | Yielded \<Rightarrow>
          bursts P (shuffle_seed (self m)) (nat (shuffle_buffer (self m))) (buffer (self m) @ kept)
      | Drained \<Rightarrow>
          bursts P (shuffle_seed (self m)) (nat (shuffle_buffer (self m))) (buffer (self m) @ kept)
      | Stopped \<Rightarrow> [])"

section \<open>Sources and generators of the tests\<close>

text \<open>\<^verbatim>\<open>IntegersDataset\<close> of \<^verbatim>\<open>tests/test_basics.py\<close>: the naturals from 0 on.\<close>

definition IntegersDataset :: "(int, int, error) source" where
  "IntegersDataset = \<lparr>generator = 0, advance = (\<lambda>n. Item n (n + 1))\<rparr>"

text \<open>
  \<^verbatim>\<open>EvensDataset\<close> of \<^verbatim>\<open>tests/test_skip.py\<close> calls \<^verbatim>\<open>self.skip_next()\<close> before it yields an
  odd number. The class defines no such method and neither does its base class, so the call
  raises \<^verbatim>\<open>AttributeError\<close> inside \<^verbatim>\<open>next(gen)\<close>.
\<close>

definition EvensDataset :: "(int, int, error) source" where
  "EvensDataset =
     \<lparr>generator = 0,
      advance = (\<lambda>n. if n mod 2 \<noteq> 0 then Raise AttributeError else Item n (n + 1))\<rparr>"

text \<open>A small generator for the examples: it counts its draws and reduces them below the bound.\<close>

definition toy_prng :: "nat prng" where
  "toy_prng = \<lparr>Random = (\<lambda>seed. nat \<bar>seed\<bar>), randbelow = (\<lambda>r n. ((r + 1) mod n, r + 1))\<rparr>"

text \<open>A source that runs through a finite list and can end with an exception.\<close>

definition list_source :: "'a list \<Rightarrow> 'e option \<Rightarrow> ('a, 'a list, 'e) source" where
  "list_source xs e =
     \<lparr>generator = xs,
      advance = (\<lambda>g. case g of
                   [] \<Rightarrow> (case e of None \<Rightarrow> StopIteration | Some err \<Rightarrow> Raise err)
                 | x # g' \<Rightarrow> Item x g')\<rparr>"

text \<open>The objects that the tests construct; arguments that are not given take their defaults.\<close>

definition new :: "int \<Rightarrow> int \<Rightarrow> int \<Rightarrow> int \<Rightarrow> int dataset" where
  "new shuffle_buffer' shuffle_seed' offset' limit' =
     \<lparr>shuffle_buffer = shuffle_buffer', shuffle_seed = shuffle_seed', buffer = [],
      offset = offset', limit = limit', counter = 0, transforms = []\<rparr>"

section \<open>Construction\<close>

lemma init_new:
  "init sb (Some seed) off lim None False r = Inr (new sb seed off lim)"
  "init sb None off lim None False r = Inr (new sb r off lim)"
  by (simp_all add: init_def new_def)


text \<open>
  C8. Constructing with \<^verbatim>\<open>transforms_required\<close> set and no transforms (absent or an empty
  list) fails with the configuration error, which the code raises as \<^verbatim>\<open>ValueError\<close>, and
  gives no object; without \<^verbatim>\<open>transforms_required\<close> the construction always gives an object.
\<close>

theorem construction_guard:
  "(transforms_required \<and> (ts = None \<or> ts = Some []) \<longrightarrow>
      init sb seed off lim ts transforms_required r = Inl ValueError)
   \<and> (\<not> transforms_required \<longrightarrow> (\<exists>ds. init sb seed off lim ts transforms_required r = Inr ds))"
proof (intro conjI impI)
  assume "transforms_required \<and> (ts = None \<or> ts = Some [])"
  then show "init sb seed off lim ts transforms_required r = Inl ValueError"
    by (auto simp: init_def)
next
  assume "\<not> transforms_required"
  then show "\<exists>ds. init sb seed off lim ts transforms_required r = Inr ds"
    by (simp add: init_def)
qed

theorem construction_guard_witness:
  "init 1 None 0 (-1) (Some ([] :: (int \<Rightarrow> int) list)) True 7 = Inl ValueError
   \<and> init 1 None 0 (-1) (None :: (int \<Rightarrow> int) list option) True 7 = Inl ValueError
   \<and> (\<exists>ds. init 1 None 0 (-1) (None :: (int \<Rightarrow> int) list option) False 7 = Inr ds)"
  using construction_guard [of True "Some ([] :: (int \<Rightarrow> int) list)" 1 None 0 "-1" 7]
    construction_guard [of True "None :: (int \<Rightarrow> int) list option" 1 None 0 "-1" 7]
    construction_guard [of False "None :: (int \<Rightarrow> int) list option" 1 None 0 "-1" 7]
  by simp

section \<open>Facts about the shuffle and the consumer\<close>

lemma length_shuffle_loop: "length (shuffle_loop P i r xs) = length xs"
  by (induction i arbitrary: r xs) (auto split: prod.splits)

lemma length_shuffle: "length (shuffle P seed xs) = length xs"
  by (simp add: shuffle_def length_shuffle_loop)

text \<open>More fuel does not change the result of a traversal that has ended.\<close>

lemma run_mono: "run P src n m = Some res \<Longrightarrow> run P src (n + k) m = Some res"
proof (induction n arbitrary: m res)
  case 0
  then show ?case by simp
next
  case (Suc n)
  obtain ev m' where st: "step P src m = (ev, m')" by (cases "step P src m")
  show ?case
  proof (cases ev)
    case (Emit x)
    with Suc.prems st obtain xs r where r: "run P src n m' = Some (xs, r)" and "res = (x # xs, r)"
      by (auto split: option.splits)
    with Suc.IH[OF r] st Emit show ?thesis by simp
  next
    case Tau
    with Suc st show ?thesis by simp
  next
    case End
    with Suc st show ?thesis by simp
  next
    case (Failure e)
    with Suc st show ?thesis by simp
  qed
qed

lemma run_Emit:
  "step P src m = (Emit x, m') \<Longrightarrow> run P src n m' = Some (xs, r) \<Longrightarrow>
   run P src (Suc n) m = Some (x # xs, r)"
  by simp

lemma run_Tau: "step P src m = (Tau, m') \<Longrightarrow> run P src (Suc n) m = run P src n m'"
  by simp

lemma run_End: "step P src m = (End, m') \<Longrightarrow> run P src (Suc n) m = Some ([], None, m')"
  by simp

lemma run_Failure:
  "step P src m = (Failure e, m') \<Longrightarrow> run P src (Suc n) m = Some ([], Some e, m')"
  by simp

text \<open>The final flush yields the rest of the buffer, then the generator resets and returns.\<close>

lemma run_flushing_final:
  "at m = Flushing i True \<Longrightarrow> k = length (buffer (self m)) - i \<Longrightarrow>
   run P src (Suc k) m =
     Some (drop i (buffer (self m)), None,
           m\<lparr>self := reset ((self m)\<lparr>buffer := []\<rparr>), at := Stopped\<rparr>)"
proof (induction k arbitrary: m i)
  case 0
  then show ?case by (simp add: step_def)
next
  case (Suc k)
  let ?m' = "m\<lparr>at := Flushing (i + 1) True\<rparr>"
  from Suc.prems have lt: "i < length (buffer (self m))" by simp
  with Suc.prems have st: "step P src m = (Emit (buffer (self m) ! i), ?m')"
    by (simp add: step_def)
  have "run P src (Suc k) ?m' =
     Some (drop (i + 1) (buffer (self ?m')), None,
           ?m'\<lparr>self := reset ((self ?m')\<lparr>buffer := []\<rparr>), at := Stopped\<rparr>)"
    using Suc.prems by (intro Suc.IH) auto
  then have "run P src (Suc k) ?m' =
     Some (drop (Suc i) (buffer (self m)), None,
           m\<lparr>self := reset ((self m)\<lparr>buffer := []\<rparr>), at := Stopped\<rparr>)"
    by simp
  from run_Emit[OF st this] lt show ?case by (simp only: Cons_nth_drop_Suc)
qed

section \<open>Single steps\<close>

lemma step_gate_closed:
  "at m = Pulling \<Longrightarrow> \<not> limit_allows_one_more (self m) \<Longrightarrow>
   step P src m = (Tau, m\<lparr>at := Drained\<rparr>)"
  by (simp add: step_def generator_with_conditions_def)

lemma step_exhausted:
  "at m = Pulling \<Longrightarrow> limit_allows_one_more (self m) \<Longrightarrow> advance src (gen m) = StopIteration \<Longrightarrow>
   step P src m = (Tau, m\<lparr>pulls := pulls m + 1, at := Drained\<rparr>)"
  by (simp add: step_def generator_with_conditions_def)

lemma step_raise:
  "at m = Pulling \<Longrightarrow> limit_allows_one_more (self m) \<Longrightarrow> advance src (gen m) = Raise e \<Longrightarrow>
   step P src m = (Failure e, m\<lparr>pulls := pulls m + 1, at := Stopped\<rparr>)"
  by (simp add: step_def generator_with_conditions_def)

lemma offset_opens_gate: "counter ds < offset ds \<Longrightarrow> limit_allows_one_more ds"
  by (simp add: limit_allows_one_more_def)

lemma step_skip:
  "at m = Pulling \<Longrightarrow> counter (self m) < offset (self m) \<Longrightarrow> advance src (gen m) = Item x g' \<Longrightarrow>
   step P src m =
     (Tau, m\<lparr>self := (self m)\<lparr>counter := counter (self m) + 1\<rparr>, gen := g',
             pulls := pulls m + 1\<rparr>)"
  by (simp add: step_def generator_with_conditions_def offset_opens_gate)

lemma step_Drained_end:
  "at m = Drained \<Longrightarrow> \<not> (1 < shuffle_buffer (self m) \<and> buffer (self m) \<noteq> []) \<Longrightarrow>
   step P src m = (End, m\<lparr>self := reset (self m), at := Stopped\<rparr>)"
  by (auto simp add: step_def)

lemma step_Drained_flush:
  "at m = Drained \<Longrightarrow> 1 < shuffle_buffer (self m) \<Longrightarrow> buffer (self m) \<noteq> [] \<Longrightarrow>
   step P src m = (Tau, flush_buffer P True m)"
  by (simp add: step_def)

text \<open>What a step can change.\<close>

lemma step_pulls:
  "pulls (snd (step P src m)) \<noteq> pulls m \<or> gen (snd (step P src m)) \<noteq> gen m \<Longrightarrow>
   at m = Pulling \<and> limit_allows_one_more (self m)"
  by (auto simp: step_def generator_with_conditions_def flush_buffer_def Let_def
      split: pc.splits pull.splits if_splits)

lemma step_config:
  "shuffle_buffer (self (snd (step P src m))) = shuffle_buffer (self m)"
  "shuffle_seed (self (snd (step P src m))) = shuffle_seed (self m)"
  "offset (self (snd (step P src m))) = offset (self m)"
  "limit (self (snd (step P src m))) = limit (self m)"
  "transforms (self (snd (step P src m))) = transforms (self m)"
  by (auto simp: step_def generator_with_conditions_def flush_buffer_def Let_def reset_def
      split: pc.splits pull.splits if_splits)

lemma step_counter:
  "fst (step P src m) \<noteq> End \<Longrightarrow> counter (self m) \<le> counter (self (snd (step P src m)))"
  by (auto simp: step_def generator_with_conditions_def flush_buffer_def Let_def reset_def
      split: pc.splits pull.splits if_splits)

lemma run_drained:
  assumes "at m = Drained"
  shows "\<exists>out m'. run P src (length (buffer (self m)) + 2) m = Some (out, None, m')
          \<and> pulls m' = pulls m \<and> gen m' = gen m
          \<and> out = (if 1 < shuffle_buffer (self m)
                   then shuffle P (shuffle_seed (self m)) (buffer (self m)) else [])"
proof (cases "1 < shuffle_buffer (self m) \<and> buffer (self m) \<noteq> []")
  case True
  let ?m2 = "flush_buffer P True m"
  have st: "step P src m = (Tau, ?m2)"
    using assms True by (simp add: step_Drained_flush)
  have len: "length (buffer (self ?m2)) = length (buffer (self m))"
    by (simp add: flush_buffer_def length_shuffle)
  have "run P src (Suc (length (buffer (self ?m2)) - 0)) ?m2 =
      Some (drop 0 (buffer (self ?m2)), None,
            ?m2\<lparr>self := reset ((self ?m2)\<lparr>buffer := []\<rparr>), at := Stopped\<rparr>)"
    by (rule run_flushing_final) (simp_all add: flush_buffer_def)
  then have r2: "run P src (Suc (length (buffer (self m)))) ?m2 =
      Some (buffer (self ?m2), None,
            ?m2\<lparr>self := reset ((self ?m2)\<lparr>buffer := []\<rparr>), at := Stopped\<rparr>)"
    by (simp only: len drop_0 diff_zero)
  have "run P src (length (buffer (self m)) + 2) m = run P src (Suc (length (buffer (self m)))) ?m2"
    using run_Tau[OF st, of "Suc (length (buffer (self m)))"] by simp
  with r2 True show ?thesis by (simp add: flush_buffer_def)
next
  case False
  have st: "step P src m = (End, m\<lparr>self := reset (self m), at := Stopped\<rparr>)"
    using assms False by (simp add: step_Drained_end)
  have "run P src (length (buffer (self m)) + 2) m =
      Some ([], None, m\<lparr>self := reset (self m), at := Stopped\<rparr>)"
    using run_End[OF st, of "Suc (length (buffer (self m)))"] by simp
  moreover have "1 < shuffle_buffer (self m) \<Longrightarrow> shuffle P (shuffle_seed (self m)) (buffer (self m)) = []"
    using False length_shuffle[of P "shuffle_seed (self m)" "buffer (self m)"] by auto
  ultimately show ?thesis by auto
qed

section \<open>The gate\<close>

text \<open>
  C4. \<^verbatim>\<open>limit_allows_one_more\<close> holds whenever the limit is negative, and for a limit that
  is not negative it holds exactly when \<open>counter < limit + offset\<close>. A pull happens only
  in a step that has found the gate open. Once the gate is found closed the traversal ends,
  with what the buffer still holds, and without another pull.
\<close>

theorem gate_check:
  "(limit ds < 0 \<longrightarrow> limit_allows_one_more ds)
   \<and> (0 \<le> limit ds \<longrightarrow> (limit_allows_one_more ds \<longleftrightarrow> counter ds < limit ds + offset ds))
   \<and> (pulls (snd (step P src m)) \<noteq> pulls m \<or> gen (snd (step P src m)) \<noteq> gen m \<longrightarrow>
        at m = Pulling \<and> limit_allows_one_more (self m))
   \<and> (at m = Pulling \<and> \<not> limit_allows_one_more (self m) \<longrightarrow>
        (\<exists>out m'. run P src (length (buffer (self m)) + 3) m = Some (out, None, m')
           \<and> pulls m' = pulls m \<and> gen m' = gen m))"
proof (intro conjI impI)
  show "limit ds < 0 \<Longrightarrow> limit_allows_one_more ds"
    by (simp add: limit_allows_one_more_def)
  show "0 \<le> limit ds \<Longrightarrow> limit_allows_one_more ds \<longleftrightarrow> counter ds < limit ds + offset ds"
    by (simp add: limit_allows_one_more_def)
  show "pulls (snd (step P src m)) \<noteq> pulls m \<or> gen (snd (step P src m)) \<noteq> gen m \<Longrightarrow>
      at m = Pulling" 
    by (drule step_pulls) simp
  show "pulls (snd (step P src m)) \<noteq> pulls m \<or> gen (snd (step P src m)) \<noteq> gen m \<Longrightarrow>
      limit_allows_one_more (self m)" 
    by (drule step_pulls) simp
next
  assume a: "at m = Pulling \<and> \<not> limit_allows_one_more (self m)"
  let ?m1 = "m\<lparr>at := Drained\<rparr>"
  from a have st: "step P src m = (Tau, ?m1)" by (simp add: step_gate_closed)
  obtain out m' where r: "run P src (length (buffer (self ?m1)) + 2) ?m1 = Some (out, None, m')"
    and p: "pulls m' = pulls ?m1" "gen m' = gen ?m1"
    using run_drained[of ?m1 P src] by auto
  have "run P src (length (buffer (self m)) + 3) m = run P src (length (buffer (self m)) + 2) ?m1"
    using run_Tau[OF st, of "length (buffer (self m)) + 2"] by (simp add: numeral_3_eq_3)
  with r p show "\<exists>out m'. run P src (length (buffer (self m)) + 3) m = Some (out, None, m')
           \<and> pulls m' = pulls m \<and> gen m' = gen m" by simp
qed

theorem gate_check_witness:
  "limit_allows_one_more (new 1 0 0 (-1))
   \<and> \<not> limit_allows_one_more ((new 1 0 5 2)\<lparr>counter := 7\<rparr>)
   \<and> limit_allows_one_more ((new 1 0 5 2)\<lparr>counter := 6\<rparr>)
   \<and> at (iter IntegersDataset (new 1 0 0 3)) = Pulling
   \<and> (\<exists>out m'. run toy_prng IntegersDataset 3
         (iter IntegersDataset ((new 1 0 5 2)\<lparr>counter := 7\<rparr>)) = Some (out, None, m')
       \<and> pulls m' = 0 \<and> gen m' = 0)"
  using gate_check [of "new 1 0 0 (-1)" toy_prng IntegersDataset "iter IntegersDataset (new 1 0 0 3)"]
    gate_check [of "(new 1 0 5 2)\<lparr>counter := 7\<rparr>" toy_prng IntegersDataset
      "iter IntegersDataset ((new 1 0 5 2)\<lparr>counter := 7\<rparr>)"]
    gate_check [of "(new 1 0 5 2)\<lparr>counter := 6\<rparr>" toy_prng IntegersDataset
      "iter IntegersDataset ((new 1 0 5 2)\<lparr>counter := 6\<rparr>)"]
  by (simp add: new_def iter_def step_def generator_with_conditions_def limit_allows_one_more_def
      IntegersDataset_def)

section \<open>Whole traversals\<close>

lemma outcomeD: "outcome res = Some (xs, e) \<Longrightarrow> \<exists>m. res = Some (xs, e, m)"
  by (auto simp: outcome_def)

lemma leftoverD:
  "leftover res = Some (c, b, p) \<Longrightarrow>
   \<exists>xs e m. res = Some (xs, e, m) \<and> counter (self m) = c \<and> buffer (self m) = b \<and> pulls m = p"
  by (auto simp: leftover_def)

lemma step_progress:
  "step P src m = (ev, m') \<Longrightarrow> ev = Tau \<or> ev = Emit x \<Longrightarrow> at m' \<noteq> Stopped"
  by (auto simp: step_def generator_with_conditions_def flush_buffer_def Let_def
      split: pc.splits pull.splits if_splits)

lemma step_End:
  "step P src m = (End, m') \<Longrightarrow> at m \<noteq> Stopped \<Longrightarrow>
   counter (self m') = 0 \<and> buffer (self m') = []"
  by (auto simp: step_def generator_with_conditions_def flush_buffer_def Let_def reset_def
      split: pc.splits pull.splits if_splits)

lemma run_normal_end:
  "run P src n m = Some (out, None, m') \<Longrightarrow> at m \<noteq> Stopped \<Longrightarrow>
   counter (self m') = 0 \<and> buffer (self m') = []"
proof (induction n arbitrary: m out)
  case 0
  then show ?case by simp
next
  case (Suc n)
  obtain ev m1 where st: "step P src m = (ev, m1)" by (cases "step P src m")
  show ?case
  proof (cases ev)
    case (Emit x)
    with Suc.prems st obtain xs where "run P src n m1 = Some (xs, None, m')"
      by (auto split: option.splits)
    moreover have "at m1 \<noteq> Stopped" using step_progress[OF st] Emit by simp
    ultimately show ?thesis by (rule Suc.IH)
  next
    case Tau
    with Suc.prems st have "run P src n m1 = Some (out, None, m')" by simp
    moreover have "at m1 \<noteq> Stopped" using step_progress[OF st] Tau by simp
    ultimately show ?thesis by (rule Suc.IH)
  next
    case End
    with Suc.prems st have "m1 = m'" by simp
    with step_End[of P src m m'] st End Suc.prems show ?thesis by simp
  next
    case (Failure e)
    with Suc.prems st show ?thesis by simp
  qed
qed

lemma run_config:
  "run P src n m = Some (out, r, m') \<Longrightarrow>
   shuffle_buffer (self m') = shuffle_buffer (self m) \<and> shuffle_seed (self m') = shuffle_seed (self m)
   \<and> offset (self m') = offset (self m) \<and> limit (self m') = limit (self m)
   \<and> transforms (self m') = transforms (self m)"
proof (induction n arbitrary: m out)
  case 0
  then show ?case by simp
next
  case (Suc n)
  obtain ev m1 where st: "step P src m = (ev, m1)" by (cases "step P src m")
  have cfg: "shuffle_buffer (self m1) = shuffle_buffer (self m)" "shuffle_seed (self m1) = shuffle_seed (self m)"
    "offset (self m1) = offset (self m)" "limit (self m1) = limit (self m)"
    "transforms (self m1) = transforms (self m)"
    using step_config[of P src m] st by simp_all
  show ?case
  proof (cases ev)
    case (Emit x)
    with Suc.prems st obtain xs where "run P src n m1 = Some (xs, r, m')"
      by (auto split: option.splits)
    from Suc.IH[OF this] cfg show ?thesis by simp
  next
    case Tau
    with Suc.prems st have "run P src n m1 = Some (out, r, m')" by simp
    from Suc.IH[OF this] cfg show ?thesis by simp
  next
    case End
    with Suc.prems st have "m1 = m'" by simp
    with cfg show ?thesis by simp
  next
    case (Failure e)
    with Suc.prems st have "m1 = m'" by simp
    with cfg show ?thesis by simp
  qed
qed


lemma restart:
  assumes "counter ds = 0" "buffer ds = []" "traverse P src n ds = Some (out, None, m')"
  shows "self m' = ds"
proof -
  from assms have r: "run P src n (iter src ds) = Some (out, None, m')" by (simp add: traverse_def)
  have "at (iter src ds) \<noteq> Stopped" by (simp add: iter_def)
  from run_normal_end[OF r this] run_config[OF r] assms show "self m' = ds"
    by (intro dataset.equality) (simp_all add: iter_def)
qed

section \<open>Restart\<close>

text \<open>
  C1. A traversal that starts from the state of a new object (counter 0, empty buffer) and
  runs to its normal end leaves the object as it found it, so the next traversal of the same
  source yields the same items in the same order. With \<^verbatim>\<open>limit=3\<close> over the naturals both
  traversals yield 0, 1, 2.
\<close>

theorem idempotent_restart:
  "(counter ds = 0 \<and> buffer ds = [] \<and> traverse P src n ds = Some (out, None, m') \<longrightarrow>
      self m' = ds \<and> traverse P src n (self m') = Some (out, None, m'))
   \<and> (\<exists>m1. traverse P IntegersDataset 20 (new 1 seed 0 3) = Some ([0, 1, 2], None, m1)
         \<and> traverse P IntegersDataset 20 (self m1) = Some ([0, 1, 2], None, m1))"
proof (intro conjI impI)
  assume a: "counter ds = 0 \<and> buffer ds = [] \<and> traverse P src n ds = Some (out, None, m')"
  then have "self m' = ds" using restart[of ds P src n out m'] by simp
  with a show "self m' = ds" "traverse P src n (self m') = Some (out, None, m')" by simp_all
next
  have "outcome (traverse P IntegersDataset 20 (new 1 seed 0 3)) = Some ([0, 1, 2], None)"
    by code_simp
  then obtain m1 where m1: "traverse P IntegersDataset 20 (new 1 seed 0 3) = Some ([0, 1, 2], None, m1)"
    by (blast dest: outcomeD)
  then have "self m1 = new 1 seed 0 3"
    by (intro restart[of _ P IntegersDataset 20 "[0, 1, 2]"]) (simp_all add: new_def)
  with m1 show "\<exists>m1. traverse P IntegersDataset 20 (new 1 seed 0 3) = Some ([0, 1, 2], None, m1)
         \<and> traverse P IntegersDataset 20 (self m1) = Some ([0, 1, 2], None, m1)" by simp
qed

theorem idempotent_restart_witness:
  "counter (new 3 42 0 5) = 0 \<and> buffer (new 3 42 0 5) = []
   \<and> (\<exists>m'. traverse toy_prng IntegersDataset 30 (new 3 42 0 5) = Some ([2, 0, 1, 3, 4], None, m')
        \<and> self m' = new 3 42 0 5
        \<and> traverse toy_prng IntegersDataset 30 (self m') = Some ([2, 0, 1, 3, 4], None, m'))"
proof -
  have "outcome (traverse toy_prng IntegersDataset 30 (new 3 42 0 5)) = Some ([2, 0, 1, 3, 4], None)"
    by code_simp
  then obtain m' where
    e: "traverse toy_prng IntegersDataset 30 (new 3 42 0 5) = Some ([2, 0, 1, 3, 4], None, m')"
    by (blast dest: outcomeD)
  have f: "counter (new 3 42 0 5) = 0 \<and> buffer (new 3 42 0 5) = []" by (simp add: new_def)
  from idempotent_restart [of "new 3 42 0 5" toy_prng IntegersDataset 30 "[2, 0, 1, 3, 4]" m'] e f
  show ?thesis by blast
qed

section \<open>The offset filter\<close>

text \<open>
  C5. While \<open>counter < offset\<close> the gate is open, and an item pulled from the source is
  dropped in a silent step: nothing is handed on, the buffer and the transforms are not
  touched, and the counter grows by one. The counter never decreases before the end of the
  run. With \<^verbatim>\<open>offset=5\<close> and \<^verbatim>\<open>limit=2\<close> over the naturals a traversal yields 5, 6, and so does
  the next one.
\<close>

theorem offset_filter:
  "(at m = Pulling \<and> counter (self m) < offset (self m) \<and> advance src (gen m) = Item x g' \<longrightarrow>
      step P src m =
        (Tau, m\<lparr>self := (self m)\<lparr>counter := counter (self m) + 1\<rparr>, gen := g',
                pulls := pulls m + 1\<rparr>))
   \<and> (fst (step P src m) \<noteq> End \<longrightarrow> counter (self m) \<le> counter (self (snd (step P src m))))
   \<and> (\<exists>m1. traverse P IntegersDataset 30 (new 1 seed 5 2) = Some ([5, 6], None, m1)
         \<and> traverse P IntegersDataset 30 (self m1) = Some ([5, 6], None, m1))"
proof (intro conjI impI)
  assume "at m = Pulling \<and> counter (self m) < offset (self m) \<and> advance src (gen m) = Item x g'"
  then show "step P src m =
        (Tau, m\<lparr>self := (self m)\<lparr>counter := counter (self m) + 1\<rparr>, gen := g',
                pulls := pulls m + 1\<rparr>)"
    by (simp add: step_skip)
next
  assume "fst (step P src m) \<noteq> End"
  then show "counter (self m) \<le> counter (self (snd (step P src m)))" by (rule step_counter)
next
  have "outcome (traverse P IntegersDataset 30 (new 1 seed 5 2)) = Some ([5, 6], None)"
    by code_simp
  then obtain m1 where m1: "traverse P IntegersDataset 30 (new 1 seed 5 2) = Some ([5, 6], None, m1)"
    by (blast dest: outcomeD)
  then have "self m1 = new 1 seed 5 2"
    by (intro restart[of _ P IntegersDataset 30 "[5, 6]"]) (simp_all add: new_def)
  with m1 show "\<exists>m1. traverse P IntegersDataset 30 (new 1 seed 5 2) = Some ([5, 6], None, m1)
         \<and> traverse P IntegersDataset 30 (self m1) = Some ([5, 6], None, m1)" by simp
qed

theorem offset_filter_witness:
  "at (iter IntegersDataset (new 1 0 5 2)) = Pulling
   \<and> counter (self (iter IntegersDataset (new 1 0 5 2))) < offset (self (iter IntegersDataset (new 1 0 5 2)))
   \<and> advance IntegersDataset (gen (iter IntegersDataset (new 1 0 5 2))) = Item 0 1
   \<and> step toy_prng IntegersDataset (iter IntegersDataset (new 1 0 5 2)) =
       (Tau, \<lparr>self = (new 1 0 5 2)\<lparr>counter := 1\<rparr>, gen = 1, at = Pulling, pulls = 1\<rparr>)
   \<and> fst (step toy_prng IntegersDataset (iter IntegersDataset (new 1 0 5 2))) \<noteq> End
   \<and> counter (self (iter IntegersDataset (new 1 0 5 2)))
       \<le> counter (self (snd (step toy_prng IntegersDataset (iter IntegersDataset (new 1 0 5 2)))))"
  using offset_filter [of "iter IntegersDataset (new 1 0 5 2)" IntegersDataset 0 1 toy_prng]
  by (simp add: iter_def new_def IntegersDataset_def)

section \<open>Failures of the source\<close>

lemma step_Failure:
  "step P src m = (Failure e, m') \<Longrightarrow> advance src (gen m) = Raise e"
  by (auto simp: step_def generator_with_conditions_def flush_buffer_def Let_def
      split: pc.splits pull.splits if_splits)

lemma run_failure_origin:
  "run P src n m = Some (out, Some e, m') \<Longrightarrow> \<exists>g. advance src g = Raise e"
proof (induction n arbitrary: m out)
  case 0
  then show ?case by simp
next
  case (Suc n)
  obtain ev m1 where st: "step P src m = (ev, m1)" by (cases "step P src m")
  show ?case
  proof (cases ev)
    case (Emit x)
    with Suc.prems st obtain xs where "run P src n m1 = Some (xs, Some e, m')"
      by (auto split: option.splits)
    then show ?thesis by (rule Suc.IH)
  next
    case Tau
    with Suc.prems st have "run P src n m1 = Some (out, Some e, m')" by simp
    then show ?thesis by (rule Suc.IH)
  next
    case End
    with Suc.prems st show ?thesis by simp
  next
    case (Failure e')
    with Suc.prems st have "e' = e" by simp
    with st Failure show ?thesis by (blast dest: step_Failure)
  qed
qed

text \<open>
  C2 as stated fails: \<^verbatim>\<open>generator_with_buffer\<close> has no \<^verbatim>\<open>try\<close>/\<^verbatim>\<open>finally\<close>, so an exception
  of the source passes lines 193 to 195 by. A source that yields 0 and 1 and then raises, read
  through a shuffle buffer of 3: the traversal yields nothing and fails, the counter stays
  at 2 and the buffer keeps 0 and 1; the next traversal of the same source then yields three
  items, two of them left over from the failed run, where a new object yields none.
\<close>

theorem source_failure_counterexample:
  "outcome (traverse toy_prng (list_source [0, 1 :: int] (Some AttributeError)) 20 (new 3 42 0 (-1)))
     = Some ([], Some AttributeError)
   \<and> leftover (traverse toy_prng (list_source [0, 1 :: int] (Some AttributeError)) 20 (new 3 42 0 (-1)))
     = Some (2, [0, 1], 3)
   \<and> outcome (traverse toy_prng (list_source [0, 1 :: int] (Some AttributeError)) 20
        ((new 3 42 0 (-1))\<lparr>counter := 2, buffer := [0, 1]\<rparr>))
     = Some ([0, 0, 1], Some AttributeError)"
  by code_simp

text \<open>
  C2, amended. An exception that the source raises during a pull reaches the consumer as it
  is and ends the traversal; counter and buffer stay as they were at that pull. Every failure
  of a traversal is an exception raised by the source. The reset belongs to the normal end
  of a run only.
\<close>

theorem source_failure:
  "(at m = Pulling \<and> limit_allows_one_more (self m) \<and> advance src (gen m) = Raise e \<longrightarrow>
      run P src (Suc n) m = Some ([], Some e, m\<lparr>pulls := pulls m + 1, at := Stopped\<rparr>))
   \<and> (run P src n m = Some (out, Some e, m') \<longrightarrow> (\<exists>g. advance src g = Raise e))
   \<and> (run P src n m = Some (out, None, m') \<and> at m \<noteq> Stopped \<longrightarrow>
        counter (self m') = 0 \<and> buffer (self m') = [])"
proof (intro conjI impI)
  assume "at m = Pulling \<and> limit_allows_one_more (self m) \<and> advance src (gen m) = Raise e"
  then have "step P src m = (Failure e, m\<lparr>pulls := pulls m + 1, at := Stopped\<rparr>)"
    by (simp add: step_raise)
  then show "run P src (Suc n) m = Some ([], Some e, m\<lparr>pulls := pulls m + 1, at := Stopped\<rparr>)"
    by (rule run_Failure)
next
  assume "run P src n m = Some (out, Some e, m')"
  then show "\<exists>g. advance src g = Raise e" by (rule run_failure_origin)
next
  assume a: "run P src n m = Some (out, None, m') \<and> at m \<noteq> Stopped"
  then show "counter (self m') = 0" "buffer (self m') = []"
    using run_normal_end[of P src n m out m'] by simp_all
qed

theorem source_failure_witness:
  "at \<lparr>self = (new 3 42 0 (-1))\<lparr>counter := 2, buffer := [0, 1]\<rparr>, gen = ([] :: int list),
        at = Pulling, pulls = 2\<rparr> = Pulling
   \<and> limit_allows_one_more ((new 3 42 0 (-1))\<lparr>counter := 2, buffer := [0, 1]\<rparr>)
   \<and> advance (list_source [0, 1 :: int] (Some AttributeError)) [] = Raise AttributeError
   \<and> run toy_prng (list_source [0, 1 :: int] (Some AttributeError)) (Suc 0)
        \<lparr>self = (new 3 42 0 (-1))\<lparr>counter := 2, buffer := [0, 1]\<rparr>, gen = [],
          at = Pulling, pulls = 2\<rparr>
      = Some ([], Some AttributeError,
              \<lparr>self = (new 3 42 0 (-1))\<lparr>counter := 2, buffer := [0, 1]\<rparr>, gen = [],
                at = Stopped, pulls = 3\<rparr>)
   \<and> (\<exists>m'. traverse toy_prng (list_source [0, 1 :: int] (Some AttributeError)) 20 (new 3 42 0 (-1))
              = Some ([], Some AttributeError, m')
         \<and> counter (self m') = 2 \<and> buffer (self m') = [0, 1] \<and> pulls m' = 3
         \<and> (\<exists>g. advance (list_source [0, 1 :: int] (Some AttributeError)) g = Raise AttributeError))
   \<and> at (iter IntegersDataset (new 3 42 0 5)) \<noteq> Stopped
   \<and> (\<exists>m'. run toy_prng IntegersDataset 30 (iter IntegersDataset (new 3 42 0 5))
              = Some ([2, 0, 1, 3, 4], None, m')
         \<and> pulls m' = 5 \<and> counter (self m') = 0 \<and> buffer (self m') = [])"
proof -
  let ?src = "list_source [0, 1 :: int] (Some AttributeError)"
  let ?ds = "(new 3 42 0 (-1))\<lparr>counter := 2, buffer := [0, 1]\<rparr>"
  let ?m = "\<lparr>self = ?ds, gen = ([] :: int list), at = Pulling, pulls = 2 :: nat\<rparr>"
  have h: "at ?m = Pulling \<and> limit_allows_one_more (self ?m) \<and> advance ?src (gen ?m) = Raise AttributeError"
    by (simp add: new_def limit_allows_one_more_def list_source_def)
  have r1: "run toy_prng ?src (Suc 0) ?m
      = Some ([], Some AttributeError, ?m\<lparr>pulls := pulls ?m + 1, at := Stopped\<rparr>)"
    using source_failure [of ?m ?src AttributeError toy_prng 0] h by blast
  have "outcome (traverse toy_prng ?src 20 (new 3 42 0 (-1))) = Some ([], Some AttributeError)"
    and l: "leftover (traverse toy_prng ?src 20 (new 3 42 0 (-1))) = Some (2, [0, 1], 3)"
    by code_simp+
  then obtain mf where t: "traverse toy_prng ?src 20 (new 3 42 0 (-1)) = Some ([], Some AttributeError, mf)"
    by (blast dest: outcomeD)
  with l have lf: "counter (self mf) = 2 \<and> buffer (self mf) = [0, 1] \<and> pulls mf = 3"
    by (simp add: leftover_def)
  have o: "\<exists>g. advance ?src g = Raise AttributeError"
    using source_failure [of "iter ?src (new 3 42 0 (-1))" ?src AttributeError toy_prng 20 "[]" mf] t
    by (simp add: traverse_def)
  have "outcome (run toy_prng IntegersDataset 30 (iter IntegersDataset (new 3 42 0 5)))
      = Some ([2, 0, 1, 3, 4], None)"
    and "map_option (\<lambda>(xs, e, m). pulls m) (run toy_prng IntegersDataset 30 (iter IntegersDataset (new 3 42 0 5)))
      = Some 5"
    by code_simp+
  then obtain m' where
    r2: "run toy_prng IntegersDataset 30 (iter IntegersDataset (new 3 42 0 5))
      = Some ([2, 0, 1, 3, 4], None, m')" and p2: "pulls m' = 5"
    by (auto dest: outcomeD)
  have ns: "at (iter IntegersDataset (new 3 42 0 5)) \<noteq> Stopped" by (simp add: iter_def)
  have z: "counter (self m') = 0 \<and> buffer (self m') = []"
    using source_failure [of "iter IntegersDataset (new 3 42 0 5)" IntegersDataset _ toy_prng 30
        "[2, 0, 1, 3, 4]" m'] r2 ns by blast
  from r1 have r1': "run toy_prng ?src (Suc 0) ?m
      = Some ([], Some AttributeError, \<lparr>self = ?ds, gen = [], at = Stopped, pulls = 3\<rparr>)"
    by (simp del: run.simps)
  from h have h': "at ?m = Pulling" "limit_allows_one_more ?ds" "advance ?src [] = Raise AttributeError"
    by simp_all
  from h' r1' t lf o ns r2 p2 z show ?thesis by blast
qed

section \<open>The missing skip\<close>

text \<open>
  C3. The class has no \<^verbatim>\<open>skip_next\<close>, and \<^verbatim>\<open>generator_with_conditions\<close> reads no mark of
  the source. \<^verbatim>\<open>EvensDataset(limit=5)\<close> of \<^verbatim>\<open>tests/test_skip.py\<close> yields 0 and then fails with
  \<^verbatim>\<open>AttributeError\<close> at the second pull, where the test expects 0, 2, 4, 6, 8.
\<close>

theorem skip_next_missing:
  "outcome (traverse P EvensDataset 20 (new 1 seed 0 5)) = Some ([0], Some AttributeError)"
  by code_simp

section \<open>A limit of zero\<close>

lemma gate_limit_zero:
  "limit ds = 0 \<Longrightarrow> limit_allows_one_more ds \<longleftrightarrow> counter ds < offset ds"
  by (simp add: limit_allows_one_more_def)

lemma run_gate_closed_empty:
  assumes "at m = Pulling" "\<not> limit_allows_one_more (self m)" "buffer (self m) = []"
  shows "run P src (Suc (Suc n)) m = Some ([], None, m\<lparr>self := reset (self m), at := Stopped\<rparr>)"
proof -
  let ?m1 = "m\<lparr>at := Drained\<rparr>"
  have st: "step P src m = (Tau, ?m1)" using assms by (simp add: step_gate_closed)
  have "step P src ?m1 = (End, ?m1\<lparr>self := reset (self ?m1), at := Stopped\<rparr>)"
    using assms by (intro step_Drained_end) simp_all
  then have "run P src (Suc n) ?m1 = Some ([], None, ?m1\<lparr>self := reset (self ?m1), at := Stopped\<rparr>)"
    by (rule run_End)
  with run_Tau[OF st, of "Suc n"] show ?thesis by simp
qed

lemma run_exhausted_empty:
  assumes "at m = Pulling" "limit_allows_one_more (self m)" "advance src (gen m) = StopIteration"
    "buffer (self m) = []"
  shows "run P src (Suc (Suc n)) m =
    Some ([], None, m\<lparr>self := reset (self m), pulls := pulls m + 1, at := Stopped\<rparr>)"
proof -
  let ?m1 = "m\<lparr>pulls := pulls m + 1, at := Drained\<rparr>"
  have st: "step P src m = (Tau, ?m1)" using assms by (simp add: step_exhausted)
  have "step P src ?m1 = (End, ?m1\<lparr>self := reset (self ?m1), at := Stopped\<rparr>)"
    using assms by (intro step_Drained_end) simp_all
  then have "run P src (Suc n) ?m1 = Some ([], None, ?m1\<lparr>self := reset (self ?m1), at := Stopped\<rparr>)"
    by (rule run_End)
  with run_Tau[OF st, of "Suc n"] show ?thesis by simp
qed

lemma limit_zero_run:
  "at m = Pulling \<Longrightarrow> limit (self m) = 0 \<Longrightarrow> buffer (self m) = [] \<Longrightarrow>
   k = nat (offset (self m) - counter (self m)) \<Longrightarrow>
   \<exists>r m'. run P src (k + 2) m = Some ([], r, m') \<and> pulls m' \<le> pulls m + k"
proof (induction k arbitrary: m)
  case 0
  then have "\<not> limit_allows_one_more (self m)" by (simp add: gate_limit_zero)
  from run_gate_closed_empty[OF "0.prems"(1) this "0.prems"(3), of P src 0]
  show ?case by simp
next
  case (Suc k)
  then have lt: "counter (self m) < offset (self m)" by simp
  then have open': "limit_allows_one_more (self m)" by (rule offset_opens_gate)
  show ?case
  proof (cases "advance src (gen m)")
    case (Item x g')
    let ?m1 = "m\<lparr>self := (self m)\<lparr>counter := counter (self m) + 1\<rparr>, gen := g',
             pulls := pulls m + 1\<rparr>"
    have st: "step P src m = (Tau, ?m1)" using Suc.prems lt Item by (simp add: step_skip)
    have "\<exists>r m'. run P src (k + 2) ?m1 = Some ([], r, m') \<and> pulls m' \<le> pulls ?m1 + k"
      using Suc.prems by (intro Suc.IH) simp_all
    then obtain r m' where "run P src (k + 2) ?m1 = Some ([], r, m')" "pulls m' \<le> pulls ?m1 + k"
      by blast
    with run_Tau[OF st, of "k + 2"] show ?thesis by simp
  next
    case StopIteration
    from run_exhausted_empty[OF Suc.prems(1) open' StopIteration Suc.prems(3), of P "Suc k"]
    show ?thesis by simp
  next
    case (Raise e)
    have "step P src m = (Failure e, m\<lparr>pulls := pulls m + 1, at := Stopped\<rparr>)"
      using Suc.prems open' Raise by (simp add: step_raise)
    from run_Failure[OF this, of "Suc (Suc k)"] show ?thesis by simp
  qed
qed

lemma limit_zero_supplied:
  "at m = Pulling \<Longrightarrow> limit (self m) = 0 \<Longrightarrow> buffer (self m) = [] \<Longrightarrow>
   k = nat (offset (self m) - counter (self m)) \<Longrightarrow> supplies src (gen m) k \<Longrightarrow>
   \<exists>m'. run P src (k + 2) m = Some ([], None, m') \<and> pulls m' = pulls m + k"
proof (induction k arbitrary: m)
  case 0
  then have "\<not> limit_allows_one_more (self m)" by (simp add: gate_limit_zero)
  from run_gate_closed_empty[OF "0.prems"(1) this "0.prems"(3), of P src 0]
  show ?case by simp
next
  case (Suc k)
  then have lt: "counter (self m) < offset (self m)" by simp
  from Suc.prems(5) obtain x g' where Item: "advance src (gen m) = Item x g'"
    and sup: "supplies src g' k"
    by (auto split: pull.splits)
  let ?m1 = "m\<lparr>self := (self m)\<lparr>counter := counter (self m) + 1\<rparr>, gen := g',
           pulls := pulls m + 1\<rparr>"
  have st: "step P src m = (Tau, ?m1)" using Suc.prems lt Item by (simp add: step_skip)
  have "\<exists>m'. run P src (k + 2) ?m1 = Some ([], None, m') \<and> pulls m' = pulls ?m1 + k"
    using Suc.prems sup by (intro Suc.IH) simp_all
  then obtain m' where "run P src (k + 2) ?m1 = Some ([], None, m')" "pulls m' = pulls ?m1 + k"
    by blast
  with run_Tau[OF st, of "k + 2"] show ?case by simp
qed

text \<open>
  C10 as stated fails for a source that ends before it has given \<open>offset\<close> items: with
  \<^verbatim>\<open>limit=0\<close> and \<^verbatim>\<open>offset=5\<close> a source of two items is pulled three times, the third pull
  finding it exhausted.
\<close>

theorem limit_zero_counterexample:
  "outcome (traverse toy_prng (list_source [1, 2 :: int] (None :: error option)) 20 (new 1 0 5 0))
     = Some ([], None)
   \<and> leftover (traverse toy_prng (list_source [1, 2 :: int] (None :: error option)) 20 (new 1 0 5 0))
     = Some (0, [], 3)"
  by code_simp

text \<open>
  C10, amended. With \<^verbatim>\<open>limit = 0\<close> and an empty buffer a traversal yields nothing, whatever
  the source, the transforms and the shuffle settings are, and it ends within
  \<open>offset - counter + 2\<close> steps and as many pulls as the offset leaves to skip, at most. On a
  new object whose source gives at least \<open>offset\<close> items the source is pulled exactly
  \<open>offset\<close> times, every item is skipped, and the run ends normally.
\<close>

theorem limit_zero:
  "limit ds = 0 \<and> buffer ds = [] \<longrightarrow>
     (traverse P src n ds = Some (out, r, m') \<longrightarrow> out = [])
     \<and> (\<exists>r0 m0. traverse P src (nat (offset ds - counter ds) + 2) ds = Some ([], r0, m0)
            \<and> pulls m0 \<le> nat (offset ds - counter ds))
     \<and> (counter ds = 0 \<and> supplies src (generator src) (nat (offset ds)) \<longrightarrow>
          (\<exists>m0. traverse P src (nat (offset ds) + 2) ds = Some ([], None, m0)
             \<and> pulls m0 = nat (offset ds)))"
proof (intro impI conjI)
  assume a: "limit ds = 0 \<and> buffer ds = []"
  let ?k = "nat (offset ds - counter ds)"
  have "\<exists>r m'. run P src (?k + 2) (iter src ds) = Some ([], r, m') \<and> pulls m' \<le> pulls (iter src ds) + ?k"
    using a by (intro limit_zero_run) (simp_all add: iter_def)
  then obtain r0 m0 where r0: "run P src (?k + 2) (iter src ds) = Some ([], r0, m0)"
    and p0: "pulls m0 \<le> ?k" by (auto simp: iter_def)
  then show "\<exists>r0 m0. traverse P src (?k + 2) ds = Some ([], r0, m0) \<and> pulls m0 \<le> ?k"
    by (auto simp: traverse_def)
  {
    assume "traverse P src n ds = Some (out, r, m')"
    then have "run P src (n + (?k + 2)) (iter src ds) = Some (out, r, m')"
      unfolding traverse_def by (rule run_mono)
    moreover have "run P src ((?k + 2) + n) (iter src ds) = Some ([], r0, m0)"
      using r0 by (rule run_mono)
    ultimately show "out = []" by (simp add: add.commute)
  }
  {
    assume b: "counter ds = 0 \<and> supplies src (generator src) (nat (offset ds))"
    have "\<exists>m'. run P src (nat (offset ds) + 2) (iter src ds) = Some ([], None, m')
        \<and> pulls m' = pulls (iter src ds) + nat (offset ds)"
      using a b by (intro limit_zero_supplied) (simp_all add: iter_def)
    then show "\<exists>m0. traverse P src (nat (offset ds) + 2) ds = Some ([], None, m0)
             \<and> pulls m0 = nat (offset ds)"
      by (simp add: traverse_def iter_def)
  }
qed

theorem limit_zero_witness:
  "limit (new 3 42 2 0) = 0 \<and> buffer (new 3 42 2 0) = [] \<and> counter (new 3 42 2 0) = 0
   \<and> supplies IntegersDataset (generator IntegersDataset) (nat (offset (new 3 42 2 0)))
   \<and> (\<exists>m0. traverse toy_prng IntegersDataset 4 (new 3 42 2 0) = Some ([], None, m0) \<and> pulls m0 = 2)"
proof -
  have h: "limit (new 3 42 2 0) = 0 \<and> buffer (new 3 42 2 0) = [] \<and> counter (new 3 42 2 0) = 0
     \<and> offset (new 3 42 2 0) = 2"
    by (simp add: new_def)
  have s: "supplies IntegersDataset (generator IntegersDataset) (nat 2)"
    by code_simp
  have n: "nat 2 + 2 = (4 :: nat)" by simp
  from limit_zero [of "new 3 42 2 0" toy_prng IntegersDataset 0 "[]" None undefined] h s n
  show ?thesis by simp
qed

section \<open>The shuffle\<close>

lemma prng_ok_draw: "prng_ok P \<Longrightarrow> randbelow P r (Suc n) = (j, r') \<Longrightarrow> j \<le> n"
  unfolding prng_ok_def by (metis fst_conv less_Suc_eq_le zero_less_Suc)

lemma shuffle_loop_map:
  "prng_ok P \<Longrightarrow> i < length xs \<Longrightarrow>
   shuffle_loop P i r (map f xs) = map f (shuffle_loop P i r xs)"
proof (induction i arbitrary: r xs)
  case 0
  then show ?case by simp
next
  case (Suc i)
  obtain j r' where d: "randbelow P r (Suc (Suc i)) = (j, r')" by (cases "randbelow P r (Suc (Suc i))")
  with Suc.prems have j: "j < length xs" using prng_ok_draw[of P r "Suc i" j r'] by simp
  let ?ys = "xs[Suc i := xs ! j, j := xs ! Suc i]"
  have "(map f xs)[Suc i := map f xs ! j, j := map f xs ! Suc i] = map f ?ys"
    using j Suc.prems by (simp add: map_update)
  moreover have "shuffle_loop P i r' (map f ?ys) = map f (shuffle_loop P i r' ?ys)"
    using Suc.prems by (intro Suc.IH) simp_all
  ultimately show ?case using d by simp
qed

lemma shuffle_map:
  assumes "prng_ok P"
  shows "shuffle P seed (map f xs) = map f (shuffle P seed xs)"
proof (cases "xs = []")
  case True
  then show ?thesis by (simp add: shuffle_def)
next
  case False
  then have "length xs - 1 < length xs" by simp
  from shuffle_loop_map[OF assms this] show ?thesis by (simp add: shuffle_def)
qed

lemma shuffle_as_order:
  assumes "prng_ok P"
  shows "shuffle P seed xs = map (\<lambda>k. xs ! k) (shuffle_order P seed (length xs))"
proof -
  have "shuffle P seed xs = shuffle P seed (map (\<lambda>k. xs ! k) [0..<length xs])"
    by (simp add: map_nth)
  also have "\<dots> = map (\<lambda>k. xs ! k) (shuffle P seed [0..<length xs])"
    using assms by (rule shuffle_map)
  finally show ?thesis by (simp add: shuffle_order_def)
qed

lemma mset_shuffle_loop:
  "prng_ok P \<Longrightarrow> i < length xs \<Longrightarrow> mset (shuffle_loop P i r xs) = mset xs"
proof (induction i arbitrary: r xs)
  case 0
  then show ?case by simp
next
  case (Suc i)
  obtain j r' where d: "randbelow P r (Suc (Suc i)) = (j, r')" by (cases "randbelow P r (Suc (Suc i))")
  with Suc.prems have j: "j < length xs" using prng_ok_draw[of P r "Suc i" j r'] by simp
  let ?ys = "xs[Suc i := xs ! j, j := xs ! Suc i]"
  have "mset ?ys = mset xs" using j Suc.prems by (simp add: mset_swap)
  moreover have "mset (shuffle_loop P i r' ?ys) = mset ?ys"
    using Suc.prems by (intro Suc.IH) simp_all
  ultimately show ?case using d by simp
qed

lemma mset_shuffle:
  assumes "prng_ok P"
  shows "mset (shuffle P seed xs) = mset xs"
proof (cases "xs = []")
  case True
  then show ?thesis by (simp add: shuffle_def)
next
  case False
  then have "length xs - 1 < length xs" by simp
  from mset_shuffle_loop[OF assms this] show ?thesis by (simp add: shuffle_def)
qed

lemma step_begins_flush:
  assumes "at (snd (step P src m)) = Flushing 0 final"
  shows "\<exists>b. (b = buffer (self m) \<or> (\<exists>y. b = buffer (self m) @ [y]))
           \<and> buffer (self (snd (step P src m))) = shuffle P (shuffle_seed (self m)) b"
  using assms
  by (auto simp: step_def generator_with_conditions_def flush_buffer_def Let_def
      split: pc.splits pull.splits if_splits)

text \<open>
  C7. A flush shuffles the buffer with a generator made anew from \<open>shuffle_seed\<close>, whatever
  was shuffled before, and no step changes the seed. The result lists the entries of the
  buffer in an order of the indices that depends on the seed and on the length only, so two
  flushes of buffers of equal length under one seed permute them alike. This holds for the
  flushes that a step begins, since each of them shuffles the buffer that way.
\<close>

theorem reseeded_shuffle:
  "prng_ok P \<longrightarrow>
     buffer (self (flush_buffer P final m)) =
       shuffle_loop P (length (buffer (self m)) - 1) (Random P (shuffle_seed (self m))) (buffer (self m))
     \<and> buffer (self (flush_buffer P final m)) =
         map (\<lambda>k. buffer (self m) ! k) (shuffle_order P (shuffle_seed (self m)) (length (buffer (self m))))
     \<and> mset (shuffle_order P (shuffle_seed (self m)) n) = mset [0..<n]
     \<and> shuffle_seed (self (snd (step P src m))) = shuffle_seed (self m)
     \<and> (shuffle_seed (self m2) = shuffle_seed (self m)
          \<and> length (buffer (self m2)) = length (buffer (self m)) \<longrightarrow>
        buffer (self (flush_buffer P final2 m2)) =
          map (\<lambda>k. buffer (self m2) ! k)
            (shuffle_order P (shuffle_seed (self m)) (length (buffer (self m)))))
     \<and> (at (snd (step P src m)) = Flushing 0 final \<longrightarrow>
          (\<exists>b. (b = buffer (self m) \<or> (\<exists>y. b = buffer (self m) @ [y]))
             \<and> buffer (self (snd (step P src m))) =
                 map (\<lambda>k. b ! k) (shuffle_order P (shuffle_seed (self m)) (length b))))"
proof (intro impI conjI)
  assume ok: "prng_ok P"
  show "buffer (self (flush_buffer P final m)) =
       shuffle_loop P (length (buffer (self m)) - 1) (Random P (shuffle_seed (self m))) (buffer (self m))"
    by (simp add: flush_buffer_def shuffle_def)
  show "buffer (self (flush_buffer P final m)) =
         map (\<lambda>k. buffer (self m) ! k) (shuffle_order P (shuffle_seed (self m)) (length (buffer (self m))))"
    using shuffle_as_order[OF ok] by (simp add: flush_buffer_def)
  show "mset (shuffle_order P (shuffle_seed (self m)) n) = mset [0..<n]"
    unfolding shuffle_order_def using ok by (rule mset_shuffle)
  show "shuffle_seed (self (snd (step P src m))) = shuffle_seed (self m)"
    by (rule step_config)
  {
    assume "shuffle_seed (self m2) = shuffle_seed (self m)
          \<and> length (buffer (self m2)) = length (buffer (self m))"
    then show "buffer (self (flush_buffer P final2 m2)) =
          map (\<lambda>k. buffer (self m2) ! k)
            (shuffle_order P (shuffle_seed (self m)) (length (buffer (self m))))"
      using shuffle_as_order[OF ok, of "shuffle_seed (self m2)" "buffer (self m2)"]
      by (simp add: flush_buffer_def)
  }
  {
    assume "at (snd (step P src m)) = Flushing 0 final"
    from step_begins_flush[OF this] obtain b where
      b: "b = buffer (self m) \<or> (\<exists>y. b = buffer (self m) @ [y])"
      and s: "buffer (self (snd (step P src m))) = shuffle P (shuffle_seed (self m)) b"
      by blast
    from s shuffle_as_order[OF ok, of "shuffle_seed (self m)" b]
    have "buffer (self (snd (step P src m))) =
        map (\<lambda>k. b ! k) (shuffle_order P (shuffle_seed (self m)) (length b))" by simp
    with b show "\<exists>b. (b = buffer (self m) \<or> (\<exists>y. b = buffer (self m) @ [y]))
             \<and> buffer (self (snd (step P src m))) =
                 map (\<lambda>k. b ! k) (shuffle_order P (shuffle_seed (self m)) (length b))" by blast
  }
qed

lemma prng_ok_toy: "prng_ok toy_prng"
  by (simp add: prng_ok_def toy_prng_def)

theorem reseeded_shuffle_witness:
  "prng_ok toy_prng
   \<and> shuffle_order toy_prng 42 3 = [2, 0, 1]
   \<and> buffer (self (flush_buffer toy_prng False
        \<lparr>self = (new 3 42 0 5)\<lparr>buffer := [0, 1, 2]\<rparr>, gen = 3 :: int, at = Pulling, pulls = 3\<rparr>))
      = [2, 0, 1]
   \<and> buffer (self (flush_buffer toy_prng True
        \<lparr>self = (new 3 42 0 (-1))\<lparr>buffer := [10, 20, 30]\<rparr>, gen = 9 :: int, at = Drained, pulls = 9\<rparr>))
      = [30, 10, 20]"
proof -
  let ?m = "\<lparr>self = (new 3 42 0 5)\<lparr>buffer := [0, 1, 2]\<rparr>, gen = 3 :: int, at = Pulling, pulls = 3\<rparr>"
  let ?m2 = "\<lparr>self = (new 3 42 0 (-1))\<lparr>buffer := [10, 20, 30]\<rparr>, gen = 9 :: int, at = Drained, pulls = 9\<rparr>"
  have o: "shuffle_order toy_prng 42 3 = [2, 0, 1]" by code_simp
  have h: "shuffle_seed (self ?m2) = shuffle_seed (self ?m)
          \<and> length (buffer (self ?m2)) = length (buffer (self ?m))"
    by (simp add: new_def)
  have v: "shuffle_seed (self ?m) = 42" "length (buffer (self ?m)) = 3"
    "buffer (self ?m) = [0, 1, 2]" "buffer (self ?m2) = [10, 20, 30]"
    by (simp_all add: new_def)
  from reseeded_shuffle [of toy_prng False ?m 3 IntegersDataset ?m2 True] prng_ok_toy h
  have "buffer (self (flush_buffer toy_prng False ?m)) =
         map (\<lambda>k. buffer (self ?m) ! k) (shuffle_order toy_prng (shuffle_seed (self ?m)) (length (buffer (self ?m))))"
    and "buffer (self (flush_buffer toy_prng True ?m2)) =
          map (\<lambda>k. buffer (self ?m2) ! k)
            (shuffle_order toy_prng (shuffle_seed (self ?m)) (length (buffer (self ?m))))"
    by blast+
  moreover have "shuffle_order toy_prng 42 (Suc (Suc (Suc 0))) = [2, 0, 1]"
    using o by (simp add: numeral_3_eq_3)
  ultimately show ?thesis using prng_ok_toy o by (simp add: new_def)
qed

section \<open>The bound on the buffer\<close>

lemma step_bound: "within_bound m \<Longrightarrow> within_bound (snd (step P src m))"
  by (auto simp: within_bound_def step_def generator_with_conditions_def flush_buffer_def Let_def
      reset_def length_shuffle split: pc.splits pull.splits if_splits)

lemma after_bound: "within_bound m \<Longrightarrow> within_bound (after P src k m)"
  by (induction k arbitrary: m) (simp_all add: step_bound)

lemma step_Flushing_emit:
  "at m = Flushing i final \<Longrightarrow> i < length (buffer (self m)) \<Longrightarrow>
   step P src m = (Emit (buffer (self m) ! i), m\<lparr>at := Flushing (Suc i) final\<rparr>)"
  by (simp add: step_def)

lemma after_Flushing:
  "at m = Flushing i final \<Longrightarrow> j \<le> length (buffer (self m)) - i \<Longrightarrow>
   after P src j m = m\<lparr>at := Flushing (i + j) final\<rparr>"
proof (induction j arbitrary: m i)
  case 0
  then show ?case by simp
next
  case (Suc j)
  then have "step P src m = (Emit (buffer (self m) ! i), m\<lparr>at := Flushing (Suc i) final\<rparr>)"
    by (intro step_Flushing_emit) simp_all
  moreover have "after P src j (m\<lparr>at := Flushing (Suc i) final\<rparr>) =
      (m\<lparr>at := Flushing (Suc i) final\<rparr>)\<lparr>at := Flushing (Suc i + j) final\<rparr>"
    using Suc.prems by (intro Suc.IH) simp_all
  ultimately show ?case by simp
qed

text \<open>
  C9. In a traversal that starts with fewer than \<open>shuffle_buffer\<close> items in the buffer, as
  every traversal of a new object with a shuffle buffer of 1 or more does, the buffer never
  holds more than \<open>shuffle_buffer\<close> items. While a flush is yielding, the frames change in
  nothing but the index of the next entry: each step yields the entry at the index, there is
  no pull and no append, and the step after the last entry empties the buffer.
\<close>

theorem buffer_bound:
  "(int (length (buffer ds)) < shuffle_buffer ds \<longrightarrow>
      int (length (buffer (self (after P src k (iter src ds))))) \<le> shuffle_buffer ds)
   \<and> (at m = Flushing i final \<and> j \<le> length (buffer (self m)) - i \<longrightarrow>
        after P src j m = m\<lparr>at := Flushing (i + j) final\<rparr>)
   \<and> (at m = Flushing i final \<and> i < length (buffer (self m)) \<longrightarrow>
        step P src m = (Emit (buffer (self m) ! i), m\<lparr>at := Flushing (Suc i) final\<rparr>))
   \<and> (at m = Flushing i final \<and> length (buffer (self m)) \<le> i \<longrightarrow>
        buffer (self (snd (step P src m))) = [] \<and> pulls (snd (step P src m)) = pulls m
        \<and> gen (snd (step P src m)) = gen m)"
proof (intro conjI impI)
  assume a: "int (length (buffer ds)) < shuffle_buffer ds"
  then have "within_bound (iter src ds)" by (simp add: within_bound_def iter_def)
  then have w: "within_bound (after P src k (iter src ds))" by (rule after_bound)
  have "shuffle_buffer (self (after P src k m0)) = shuffle_buffer (self m0)" for m0
    by (induction k arbitrary: m0) (simp_all add: step_config)
  then have "shuffle_buffer (self (after P src k (iter src ds))) = shuffle_buffer ds"
    by (simp add: iter_def)
  with w show "int (length (buffer (self (after P src k (iter src ds))))) \<le> shuffle_buffer ds"
    by (simp add: within_bound_def)
next
  assume "at m = Flushing i final \<and> j \<le> length (buffer (self m)) - i"
  then show "after P src j m = m\<lparr>at := Flushing (i + j) final\<rparr>"
    by (simp add: after_Flushing)
next
  assume "at m = Flushing i final \<and> i < length (buffer (self m))"
  then show "step P src m = (Emit (buffer (self m) ! i), m\<lparr>at := Flushing (Suc i) final\<rparr>)"
    by (simp add: step_Flushing_emit)
next
  assume a: "at m = Flushing i final \<and> length (buffer (self m)) \<le> i"
  then show "buffer (self (snd (step P src m))) = []" "pulls (snd (step P src m)) = pulls m"
    "gen (snd (step P src m)) = gen m"
    by (simp_all add: step_def reset_def)
qed

theorem buffer_bound_witness:
  "int (length (buffer (new 3 42 0 5))) < shuffle_buffer (new 3 42 0 5)
   \<and> int (length (buffer (self (after toy_prng IntegersDataset 5 (iter IntegersDataset (new 3 42 0 5))))))
       \<le> shuffle_buffer (new 3 42 0 5)
   \<and> after toy_prng IntegersDataset 2
       \<lparr>self = (new 3 42 0 5)\<lparr>buffer := [2, 0, 1]\<rparr>, gen = 3, at = Flushing 0 False, pulls = 3\<rparr>
     = \<lparr>self = (new 3 42 0 5)\<lparr>buffer := [2, 0, 1]\<rparr>, gen = 3, at = Flushing 2 False, pulls = 3\<rparr>
   \<and> step toy_prng IntegersDataset
       \<lparr>self = (new 3 42 0 5)\<lparr>buffer := [2, 0, 1]\<rparr>, gen = 3, at = Flushing 2 False, pulls = 3\<rparr>
     = (Emit 1, \<lparr>self = (new 3 42 0 5)\<lparr>buffer := [2, 0, 1]\<rparr>, gen = 3, at = Flushing 3 False, pulls = 3\<rparr>)
   \<and> buffer (self (snd (step toy_prng IntegersDataset
       \<lparr>self = (new 3 42 0 5)\<lparr>buffer := [2, 0, 1]\<rparr>, gen = 3, at = Flushing 3 False, pulls = 3\<rparr>))) = []"
proof -
  let ?ds = "new 3 42 0 5"
  let ?m = "\<lambda>i. \<lparr>self = ?ds\<lparr>buffer := [2, 0, 1]\<rparr>, gen = 3 :: int, at = Flushing i False, pulls = 3 :: nat\<rparr>"
  have h1: "int (length (buffer ?ds)) < shuffle_buffer ?ds" by (simp add: new_def)
  have h2: "at (?m 0) = Flushing 0 False \<and> 2 \<le> length (buffer (self (?m 0))) - 0" by simp
  have h3: "at (?m 2) = Flushing 2 False \<and> 2 < length (buffer (self (?m 2)))" by simp
  have h4: "at (?m 3) = Flushing 3 False \<and> length (buffer (self (?m 3))) \<le> 3" by simp
  from buffer_bound [of ?ds toy_prng IntegersDataset 5 "?m 0" 0 False 2] h1 h2
  have c1: "int (length (buffer (self (after toy_prng IntegersDataset 5 (iter IntegersDataset ?ds)))))
       \<le> shuffle_buffer ?ds"
    and c2: "after toy_prng IntegersDataset 2 (?m 0) = ?m 0\<lparr>at := Flushing (0 + 2) False\<rparr>"
    by blast+
  from buffer_bound [of ?ds toy_prng IntegersDataset 5 "?m 2" 2 False 0] h3
  have c3: "step toy_prng IntegersDataset (?m 2) =
      (Emit (buffer (self (?m 2)) ! 2), ?m 2\<lparr>at := Flushing (Suc 2) False\<rparr>)"
    by blast
  from buffer_bound [of ?ds toy_prng IntegersDataset 5 "?m 3" 3 False 0] h4
  have c4: "buffer (self (snd (step toy_prng IntegersDataset (?m 3)))) = []"
    by blast
  from h1 c1 c2 c3 c4 show ?thesis by (simp add: numeral_3_eq_3)
qed

section \<open>Flushes and the kept items\<close>

lemma chunks_Nil: "chunks k [] = []"
  by (subst chunks.simps) simp

lemma chunks_full: "0 < k \<Longrightarrow> length xs = k \<Longrightarrow> chunks k (xs @ ys) = xs # chunks k ys"
  by (subst chunks.simps) auto

lemma chunks_short: "xs \<noteq> [] \<Longrightarrow> length xs \<le> k \<Longrightarrow> chunks k xs = [xs]"
  by (subst chunks.simps) (auto simp: chunks_Nil)

lemma bursts_Nil: "bursts P seed k [] = []"
  by (simp add: bursts_def chunks_Nil)

lemma bursts_full:
  "0 < k \<Longrightarrow> length xs = k \<Longrightarrow> bursts P seed k (xs @ ys) = shuffle P seed xs @ bursts P seed k ys"
  by (simp add: bursts_def chunks_full)

lemma bursts_short:
  "xs \<noteq> [] \<Longrightarrow> length xs \<le> k \<Longrightarrow> bursts P seed k xs = shuffle P seed xs"
  by (simp add: bursts_def chunks_short)

lemma mset_bursts: "prng_ok P \<Longrightarrow> mset (bursts P seed k xs) = mset xs"
proof (induction k xs rule: chunks.induct)
  case (1 k xs)
  show ?case
  proof (cases "xs = [] \<or> k = 0")
    case True
    then have "chunks k xs = (if xs = [] then [] else [xs])"
      by (subst chunks.simps) auto
    then show ?thesis using "1.prems" by (simp add: bursts_def mset_shuffle)
  next
    case False
    then have "mset (bursts P seed k (drop k xs)) = mset (drop k xs)"
      using "1.IH" "1.prems" by simp
    moreover have "bursts P seed k xs = shuffle P seed (take k xs) @ bursts P seed k (drop k xs)"
      using False unfolding bursts_def by (subst chunks.simps) simp
    moreover have "mset (take k xs) + mset (drop k xs) = mset xs"
      by (metis append_take_drop_id mset_append)
    ultimately show ?thesis using "1.prems" by (simp add: mset_shuffle)
  qed
qed

lemma length_bursts: "length (bursts P seed k xs) = length xs"
proof (induction k xs rule: chunks.induct)
  case (1 k xs)
  show ?case
  proof (cases "xs = [] \<or> k = 0")
    case True
    then have "chunks k xs = (if xs = [] then [] else [xs])"
      by (subst chunks.simps) auto
    then show ?thesis by (simp add: bursts_def length_shuffle)
  next
    case False
    then have "length (bursts P seed k (drop k xs)) = length (drop k xs)"
      using "1.IH" by simp
    moreover have "bursts P seed k xs = shuffle P seed (take k xs) @ bursts P seed k (drop k xs)"
      using False unfolding bursts_def by (subst chunks.simps) simp
    ultimately show ?thesis by (simp add: length_shuffle)
  qed
qed

lemma run_unique: "run P src n m = Some res \<Longrightarrow> run P src k m = Some res' \<Longrightarrow> res = res'"
  using run_mono[of P src n m res k] run_mono[of P src k m res' n] by (simp add: add.commute)

lemma gate_unbuffered [simp]:
  "limit_allows_one_more (self (unbuffered m)) = limit_allows_one_more (self m)"
  by (simp add: limit_allows_one_more_def unbuffered_def)

lemma unbuffered_proj [simp]:
  "gen (unbuffered m) = gen m"
  "pulls (unbuffered m) = pulls m"
  "counter (self (unbuffered m)) = counter (self m)"
  "offset (self (unbuffered m)) = offset (self m)"
  "at m = Pulling \<Longrightarrow> at (unbuffered m) = Pulling"
  by (simp_all add: unbuffered_def)

lemma unbuffered_gate_closed:
  assumes "at m = Pulling" "\<not> limit_allows_one_more (self m)"
  shows "step P src (unbuffered m) = (Tau, unbuffered (m\<lparr>at := Drained\<rparr>))"
proof -
  have "step P src (unbuffered m) = (Tau, (unbuffered m)\<lparr>at := Drained\<rparr>)"
    using assms by (intro step_gate_closed) simp_all
  then show ?thesis using assms by (simp add: unbuffered_def)
qed

lemma unbuffered_exhausted:
  assumes "at m = Pulling" "limit_allows_one_more (self m)" "advance src (gen m) = StopIteration"
  shows "step P src (unbuffered m) = (Tau, unbuffered (m\<lparr>pulls := pulls m + 1, at := Drained\<rparr>))"
proof -
  have "step P src (unbuffered m) =
      (Tau, (unbuffered m)\<lparr>pulls := pulls (unbuffered m) + 1, at := Drained\<rparr>)"
    using assms by (intro step_exhausted) simp_all
  then show ?thesis using assms by (simp add: unbuffered_def)
qed

lemma unbuffered_skip:
  assumes "at m = Pulling" "counter (self m) < offset (self m)" "advance src (gen m) = Item x g'"
  shows "step P src (unbuffered m) =
        (Tau, unbuffered (m\<lparr>self := (self m)\<lparr>counter := counter (self m) + 1\<rparr>, gen := g',
             pulls := pulls m + 1\<rparr>))"
proof -
  have "step P src (unbuffered m) =
      (Tau, (unbuffered m)\<lparr>self := (self (unbuffered m))\<lparr>counter := counter (self (unbuffered m)) + 1\<rparr>,
         gen := g', pulls := pulls (unbuffered m) + 1\<rparr>)"
    using assms by (intro step_skip) simp_all
  then show ?thesis using assms by (simp add: unbuffered_def)
qed

lemma step_keep:
  assumes "at m = Pulling" "limit_allows_one_more (self m)" "advance src (gen m) = Item x g'"
    "\<not> counter (self m) < offset (self m)" "1 < shuffle_buffer (self m)"
  defines "mk \<equiv> m\<lparr>gen := g', pulls := pulls m + 1,
      self := (self m)\<lparr>buffer := buffer (self m) @ [transform_x (self m) x]\<rparr>\<rparr>"
  shows "shuffle_buffer (self m) \<le> int (length (buffer (self m))) + 1 \<Longrightarrow>
      step P src m = (Tau, flush_buffer P False mk)"
    and "\<not> shuffle_buffer (self m) \<le> int (length (buffer (self m))) + 1 \<Longrightarrow>
      step P src m = (Tau, mk\<lparr>at := Yielded\<rparr>)"
    and "step P src (unbuffered m) = (Emit (transform_x (self m) x), unbuffered (mk\<lparr>at := Yielded\<rparr>))"
    and "unbuffered (flush_buffer P False mk) = unbuffered (mk\<lparr>at := Yielded\<rparr>)"
  using assms(1-5) unfolding mk_def
  by (simp_all add: step_def generator_with_conditions_def unbuffered_def flush_buffer_def
      limit_allows_one_more_def transform_x_def Let_def)

lemma step_Yielded:
  "at m = Yielded \<Longrightarrow>
   step P src m = (Tau, m\<lparr>self := (self m)\<lparr>counter := counter (self m) + 1\<rparr>, at := Pulling\<rparr>)"
  by (simp add: step_def)

lemma unbuffered_Yielded:
  "at m = Yielded \<Longrightarrow>
   step P src (unbuffered m) =
     (Tau, unbuffered (m\<lparr>self := (self m)\<lparr>counter := counter (self m) + 1\<rparr>, at := Pulling\<rparr>))"
  by (simp add: step_def unbuffered_def)

lemma unbuffered_ends:
  "at m = Drained \<or> at m = Flushing i True \<Longrightarrow>
   \<exists>mk. step P src (unbuffered m) = (End, mk)"
  by (auto simp: step_def unbuffered_def)

lemma run_unbuffered_end:
  assumes "at m = Drained \<or> at m = Flushing i True"
  shows "run P src (Suc k) (unbuffered m) = Some (kept, r, mk) \<Longrightarrow> kept = []"
    and "\<exists>mk. run P src (Suc 0) (unbuffered m) = Some ([], None, mk)"
proof -
  from unbuffered_ends[OF assms] obtain m2 where st: "step P src (unbuffered m) = (End, m2)"
    by blast
  show "run P src (Suc k) (unbuffered m) = Some (kept, r, mk) \<Longrightarrow> kept = []"
    using run_End[OF st, of k] by simp
  show "\<exists>mk. run P src (Suc 0) (unbuffered m) = Some ([], None, mk)"
    using run_End[OF st, of 0] by simp
qed

lemma flush_simulation:
  "1 < shuffle_buffer (self m) \<Longrightarrow> within_bound m \<Longrightarrow> at m \<noteq> Stopped \<Longrightarrow>
   run P src n m = Some (out, None, m') \<Longrightarrow>
   \<exists>k kept mk. run P src k (unbuffered m) = Some (kept, None, mk) \<and> out = remaining P m kept"
proof (induction n arbitrary: m out)
  case 0
  then show ?case by simp
next
  case (Suc n)
  obtain ev m1 where st: "step P src m = (ev, m1)" by (cases "step P src m")
  have wb1: "within_bound m1" using step_bound[OF Suc.prems(2), of P src] st by simp
  have sb1: "shuffle_buffer (self m1) = shuffle_buffer (self m)"
    and seed1: "shuffle_seed (self m1) = shuffle_seed (self m)"
    using step_config[of P src m] st by simp_all
  have big1: "1 < shuffle_buffer (self m1)" using sb1 Suc.prems(1) by simp
  note run = Suc.prems(4)
  \<comment> \<open>a silent step that the plain traversal mirrors by a silent step\<close>
  have both_tau: ?case
    if ev: "ev = Tau" and u: "step P src (unbuffered m) = (Tau, unbuffered m1)"
      and same: "\<And>kept. remaining P m1 kept = remaining P m kept" 
  proof -
    from run st ev have r1: "run P src n m1 = Some (out, None, m')" by simp
    have "at m1 \<noteq> Stopped" using step_progress[OF st] ev by simp
    from Suc.IH[OF big1 wb1 this r1] obtain k kept mk where
      k: "run P src k (unbuffered m1) = Some (kept, None, mk)" and o: "out = remaining P m1 kept"
      by blast
    from run_Tau[OF u, of k] k have "run P src (Suc k) (unbuffered m) = Some (kept, None, mk)" by simp
    with o same show ?thesis by blast
  qed
  \<comment> \<open>a silent step of buffering where the plain traversal hands the item on\<close>
  have keep: ?case
    if ev: "ev = Tau" and u: "step P src (unbuffered m) = (Emit y, unbuffered m1)"
      and cons: "\<And>kept. remaining P m1 kept = remaining P m (y # kept)" for y
  proof -
    from run st ev have r1: "run P src n m1 = Some (out, None, m')" by simp
    have "at m1 \<noteq> Stopped" using step_progress[OF st] ev by simp
    from Suc.IH[OF big1 wb1 this r1] obtain k kept mk where
      k: "run P src k (unbuffered m1) = Some (kept, None, mk)" and o: "out = remaining P m1 kept"
      by blast
    from run_Emit[OF u k] have "run P src (Suc k) (unbuffered m) = Some (y # kept, None, mk)" .
    with o cons show ?thesis by blast
  qed
  show ?case
  proof (cases "at m")
    case Pulling
    show ?thesis
    proof (cases "limit_allows_one_more (self m)")
      case False
      have s: "step P src m = (Tau, m\<lparr>at := Drained\<rparr>)"
        using Pulling False by (rule step_gate_closed)
      with st have e: "ev = Tau" "m1 = m\<lparr>at := Drained\<rparr>" by simp_all
      show ?thesis
      proof (rule both_tau[OF e(1)])
        show "step P src (unbuffered m) = (Tau, unbuffered m1)"
          unfolding e(2) using Pulling False by (rule unbuffered_gate_closed)
        show "remaining P m1 kept = remaining P m kept" for kept
          using Pulling e(2) by (simp add: remaining_def)
      qed
    next
      case True
      show ?thesis
      proof (cases "advance src (gen m)")
        case StopIteration
        have s: "step P src m = (Tau, m\<lparr>pulls := pulls m + 1, at := Drained\<rparr>)"
          using Pulling True StopIteration by (rule step_exhausted)
        with st have e: "ev = Tau" "m1 = m\<lparr>pulls := pulls m + 1, at := Drained\<rparr>" by simp_all
        show ?thesis
        proof (rule both_tau[OF e(1)])
          show "step P src (unbuffered m) = (Tau, unbuffered m1)"
            unfolding e(2) using Pulling True StopIteration by (rule unbuffered_exhausted)
          show "remaining P m1 kept = remaining P m kept" for kept
            using Pulling e(2) by (simp add: remaining_def)
        qed
      next
        case (Raise e)
        have "step P src m = (Failure e, m\<lparr>pulls := pulls m + 1, at := Stopped\<rparr>)"
          using Pulling True Raise by (rule step_raise)
        from run_Failure[OF this, of n] run show ?thesis by simp
      next
        case (Item x g')
        show ?thesis
        proof (cases "counter (self m) < offset (self m)")
          case skip: True
          let ?m1 = "m\<lparr>self := (self m)\<lparr>counter := counter (self m) + 1\<rparr>, gen := g',
             pulls := pulls m + 1\<rparr>"
          have s: "step P src m = (Tau, ?m1)" using Pulling skip Item by (rule step_skip)
          with st have e: "ev = Tau" "m1 = ?m1" by simp_all
          show ?thesis
          proof (rule both_tau[OF e(1)])
            show "step P src (unbuffered m) = (Tau, unbuffered m1)"
              unfolding e(2) using Pulling skip Item by (rule unbuffered_skip)
            show "remaining P m1 kept = remaining P m kept" for kept
              using Pulling e(2) by (simp add: remaining_def)
          qed
        next
          case nskip: False
          let ?y = "transform_x (self m) x"
          let ?mk = "m\<lparr>gen := g', pulls := pulls m + 1,
              self := (self m)\<lparr>buffer := buffer (self m) @ [?y]\<rparr>\<rparr>"
          note sk = step_keep[OF Pulling True Item nskip Suc.prems(1), of P]
          have lt: "int (length (buffer (self m))) < shuffle_buffer (self m)"
            using Suc.prems(2) Pulling by (simp add: within_bound_def)
          show ?thesis
          proof (cases "shuffle_buffer (self m) \<le> int (length (buffer (self m))) + 1")
            case full: True
            from sk(1)[OF full] st have e: "ev = Tau" "m1 = flush_buffer P False ?mk" by simp_all
            have len: "length (buffer (self m) @ [?y]) = nat (shuffle_buffer (self m))"
              using full lt by simp
            show ?thesis
            proof (rule keep[OF e(1), of ?y])
              show "step P src (unbuffered m) = (Emit ?y, unbuffered m1)"
                unfolding e(2) sk(4) by (rule sk(3))
              show "remaining P m1 kept = remaining P m (?y # kept)" for kept
                using bursts_full[of "nat (shuffle_buffer (self m))" "buffer (self m) @ [?y]" P
                    "shuffle_seed (self m)" kept] len Suc.prems(1) Pulling
                by (simp add: remaining_def e(2) flush_buffer_def)
            qed
          next
            case nfull: False
            from sk(2)[OF nfull] st have e: "ev = Tau" "m1 = ?mk\<lparr>at := Yielded\<rparr>" by simp_all
            show ?thesis
            proof (rule keep[OF e(1), of ?y])
              show "step P src (unbuffered m) = (Emit ?y, unbuffered m1)"
                unfolding e(2) by (rule sk(3))
              show "remaining P m1 kept = remaining P m (?y # kept)" for kept
                using Pulling by (simp add: remaining_def e(2))
            qed
          qed
        qed
      qed
    qed
  next
    case Yielded
    let ?m1 = "m\<lparr>self := (self m)\<lparr>counter := counter (self m) + 1\<rparr>, at := Pulling\<rparr>"
    have s: "step P src m = (Tau, ?m1)" using Yielded by (rule step_Yielded)
    with st have e: "ev = Tau" "m1 = ?m1" by simp_all
    show ?thesis
    proof (rule both_tau[OF e(1)])
      show "step P src (unbuffered m) = (Tau, unbuffered m1)"
        unfolding e(2) using Yielded by (rule unbuffered_Yielded)
      show "remaining P m1 kept = remaining P m kept" for kept
        using Yielded e(2) by (simp add: remaining_def)
    qed
  next
    case (Flushing i final)
    show ?thesis
    proof (cases "i < length (buffer (self m))")
      case True
      let ?m1 = "m\<lparr>at := Flushing (Suc i) final\<rparr>"
      have s: "step P src m = (Emit (buffer (self m) ! i), ?m1)"
        using Flushing True by (rule step_Flushing_emit)
      with st have e: "ev = Emit (buffer (self m) ! i)" "m1 = ?m1" by simp_all
      from run st e obtain out1 where r1: "run P src n m1 = Some (out1, None, m')"
        and o: "out = buffer (self m) ! i # out1"
        by (auto split: option.splits)
      have "at m1 \<noteq> Stopped" using e(2) by simp
      from Suc.IH[OF big1 wb1 this r1] obtain k kept mk where
        k: "run P src k (unbuffered m1) = Some (kept, None, mk)" and o1: "out1 = remaining P m1 kept"
        by blast
      have "unbuffered m1 = unbuffered m" using Flushing e(2) by (simp add: unbuffered_def)
      moreover have "buffer (self m) ! i # remaining P m1 kept = remaining P m kept"
        using Flushing e(2) True by (simp add: remaining_def Cons_nth_drop_Suc)
      ultimately show ?thesis using k o o1 by auto
    next
      case past: False
      show ?thesis
      proof (cases final)
        case True
        have "fst (step P src m) = End" using Flushing past True by (simp add: step_def)
        with st have "ev = End" by simp
        with run st have o: "out = []" by simp
        have "at m = Drained \<or> at m = Flushing i True" using Flushing True by simp
        from run_unbuffered_end(2)[OF this, of P src]
        obtain mk where "run P src (Suc 0) (unbuffered m) = Some ([], None, mk)" by blast
        moreover have "remaining P m [] = []"
          using Flushing past by (simp add: remaining_def bursts_Nil)
        ultimately show ?thesis using o by metis
      next
        case False
        let ?m1 = "m\<lparr>self := (self m)\<lparr>buffer := []\<rparr>, at := Yielded\<rparr>"
        have "step P src m = (Tau, ?m1)" using Flushing past False by (simp add: step_def)
        with st have e: "ev = Tau" "m1 = ?m1" by simp_all
        from run st e have r1: "run P src n m1 = Some (out, None, m')" by simp
        have "at m1 \<noteq> Stopped" using e(2) by simp
        from Suc.IH[OF big1 wb1 this r1] obtain k kept mk where
          k: "run P src k (unbuffered m1) = Some (kept, None, mk)" and o1: "out = remaining P m1 kept"
          by blast
        have "unbuffered m1 = unbuffered m" using Flushing False e(2) by (simp add: unbuffered_def)
        moreover have "remaining P m1 kept = remaining P m kept"
          using Flushing e(2) past by (simp add: remaining_def)
        ultimately show ?thesis using k o1 by auto
      qed
    qed
  next
    case Drained
    show ?thesis
    proof (cases "buffer (self m) = []")
      case True
      have "step P src m = (End, m\<lparr>self := reset (self m), at := Stopped\<rparr>)"
        using Drained True by (intro step_Drained_end) simp_all
      with run st have o: "out = []" by simp
      have "at m = Drained \<or> at m = Flushing 0 True" using Drained by simp
      from run_unbuffered_end(2)[OF this, of P src]
      obtain mk where "run P src (Suc 0) (unbuffered m) = Some ([], None, mk)" by blast
      moreover have "remaining P m [] = []"
        using Drained True by (simp add: remaining_def bursts_Nil)
      ultimately show ?thesis using o by metis
    next
      case False
      let ?m1 = "flush_buffer P True m"
      have "step P src m = (Tau, ?m1)" using Drained Suc.prems(1) False by (rule step_Drained_flush)
      with st have e: "ev = Tau" "m1 = ?m1" by simp_all
      from run st e have r1: "run P src n m1 = Some (out, None, m')" by simp
      have "at m1 \<noteq> Stopped" using e(2) by (simp add: flush_buffer_def)
      from Suc.IH[OF big1 wb1 this r1] obtain k kept mk where
        k: "run P src k (unbuffered m1) = Some (kept, None, mk)" and o1: "out = remaining P m1 kept"
        by blast
      have u: "unbuffered m1 = unbuffered m"
        using Drained e(2) by (simp add: unbuffered_def flush_buffer_def)
      from k obtain k' where "k = Suc k'" by (cases k) simp_all
      moreover have "at m = Drained \<or> at m = Flushing 0 True" using Drained by simp
      ultimately have kept: "kept = []"
        using k u run_unbuffered_end(1)[of m 0 P src k' kept None mk] by simp
      have "int (length (buffer (self m))) \<le> shuffle_buffer (self m)"
        using Suc.prems(2) by (simp add: within_bound_def)
      then have "length (buffer (self m)) \<le> nat (shuffle_buffer (self m))" by simp
      from bursts_short[OF False this, of P "shuffle_seed (self m)"]
      have "remaining P m1 [] = remaining P m []"
        using Drained e(2) by (simp add: remaining_def flush_buffer_def bursts_Nil)
      with k u o1 kept show ?thesis by auto
    qed
  next
    case Stopped
    with Suc.prems(3) show ?thesis by simp
  qed
qed

text \<open>
  C6. With a shuffle buffer (\<open>shuffle_buffer > 1\<close>), a traversal that starts with an empty
  buffer and ends normally yields the items that the same object yields without a shuffle
  buffer, that is the kept, transformed items, cut into pieces of \<open>shuffle_buffer\<close> items
  and each piece shuffled under the seed, the last, shorter piece as well. So the output has
  as many items as were kept, and, a shuffle being a rearrangement, every kept item exactly
  as often as it was kept. At the end of a run a buffer that is not empty is shuffled as in
  any flush and yielded whole.
\<close>

theorem partial_flush:
  "(1 < shuffle_buffer ds \<and> buffer ds = [] \<and> traverse P src n ds = Some (out, None, m') \<longrightarrow>
      (\<exists>k kept mk. traverse P src k (ds\<lparr>shuffle_buffer := 1\<rparr>) = Some (kept, None, mk)
         \<and> out = bursts P (shuffle_seed ds) (nat (shuffle_buffer ds)) kept
         \<and> length out = length kept
         \<and> (prng_ok P \<longrightarrow> mset out = mset kept)))
   \<and> (at m = Drained \<and> 1 < shuffle_buffer (self m) \<and> buffer (self m) \<noteq> [] \<longrightarrow>
        (\<exists>m2. run P src (length (buffer (self m)) + 2) m =
           Some (shuffle P (shuffle_seed (self m)) (buffer (self m)), None, m2)
         \<and> length (shuffle P (shuffle_seed (self m)) (buffer (self m))) = length (buffer (self m))))"
proof (intro conjI impI)
  assume a: "1 < shuffle_buffer ds \<and> buffer ds = [] \<and> traverse P src n ds = Some (out, None, m')"
  let ?m = "iter src ds"
  have r: "run P src n ?m = Some (out, None, m')" using a by (simp add: traverse_def)
  have "1 < shuffle_buffer (self ?m)" "within_bound ?m" "at ?m \<noteq> Stopped"
    using a by (simp_all add: iter_def within_bound_def)
  from flush_simulation[OF this r] obtain k kept mk where
    k: "run P src k (unbuffered ?m) = Some (kept, None, mk)" and o: "out = remaining P ?m kept"
    by blast
  have "ds\<lparr>shuffle_buffer := 1, buffer := []\<rparr> = ds\<lparr>shuffle_buffer := 1\<rparr>"
    using a by (intro dataset.equality) simp_all
  then have "unbuffered ?m = iter src (ds\<lparr>shuffle_buffer := 1\<rparr>)"
    by (simp add: unbuffered_def iter_def)
  with k have t: "traverse P src k (ds\<lparr>shuffle_buffer := 1\<rparr>) = Some (kept, None, mk)"
    by (simp add: traverse_def)
  from o a have b: "out = bursts P (shuffle_seed ds) (nat (shuffle_buffer ds)) kept"
    by (simp add: remaining_def iter_def)
  from b have "length out = length kept" by (simp add: length_bursts)
  moreover from b have "prng_ok P \<longrightarrow> mset out = mset kept" by (simp add: mset_bursts)
  ultimately show "\<exists>k kept mk. traverse P src k (ds\<lparr>shuffle_buffer := 1\<rparr>) = Some (kept, None, mk)
         \<and> out = bursts P (shuffle_seed ds) (nat (shuffle_buffer ds)) kept
         \<and> length out = length kept
         \<and> (prng_ok P \<longrightarrow> mset out = mset kept)"
    using t b by blast
next
  assume a: "at m = Drained \<and> 1 < shuffle_buffer (self m) \<and> buffer (self m) \<noteq> []"
  then have "at m = Drained" by simp
  from run_drained[OF this, of P src] a
  show "\<exists>m2. run P src (length (buffer (self m)) + 2) m =
           Some (shuffle P (shuffle_seed (self m)) (buffer (self m)), None, m2)
         \<and> length (shuffle P (shuffle_seed (self m)) (buffer (self m))) = length (buffer (self m))"
    by (auto simp: length_shuffle)
qed

theorem partial_flush_witness:
  "1 < shuffle_buffer (new 3 42 0 5) \<and> buffer (new 3 42 0 5) = [] \<and> prng_ok toy_prng
   \<and> outcome (traverse toy_prng IntegersDataset 30 (new 3 42 0 5)) = Some ([2, 0, 1, 3, 4], None)
   \<and> (\<exists>k kept mk.
         traverse toy_prng IntegersDataset k ((new 3 42 0 5)\<lparr>shuffle_buffer := 1\<rparr>) = Some (kept, None, mk)
         \<and> [2, 0, 1, 3, 4] = bursts toy_prng 42 3 kept
         \<and> length [2, 0, 1, 3, 4 :: int] = length kept
         \<and> mset [2, 0, 1, 3, 4] = mset kept)
   \<and> (\<exists>m2. run toy_prng IntegersDataset 4
         \<lparr>self = (new 3 42 0 5)\<lparr>buffer := [3, 4], counter := 5\<rparr>, gen = 5, at = Drained, pulls = 5\<rparr>
        = Some (shuffle toy_prng 42 [3, 4], None, m2))"
proof -
  let ?ds = "new 3 42 0 5"
  let ?m = "\<lparr>self = ?ds\<lparr>buffer := [3, 4], counter := 5\<rparr>, gen = 5 :: int, at = Drained, pulls = 5 :: nat\<rparr>"
  have o: "outcome (traverse toy_prng IntegersDataset 30 ?ds) = Some ([2, 0, 1, 3, 4], None)"
    by code_simp
  then obtain m' where
    e: "traverse toy_prng IntegersDataset 30 ?ds = Some ([2, 0, 1, 3, 4], None, m')"
    by (blast dest: outcomeD)
  have h: "1 < shuffle_buffer ?ds \<and> buffer ?ds = []" "shuffle_seed ?ds = 42"
    "nat (shuffle_buffer ?ds) = 3"
    by (simp_all add: new_def)
  have h2: "at ?m = Drained \<and> 1 < shuffle_buffer (self ?m) \<and> buffer (self ?m) \<noteq> []"
    by (simp add: new_def)
  have v: "length (buffer (self ?m)) + 2 = 4" "shuffle_seed (self ?m) = 42" "buffer (self ?m) = [3, 4]"
    by (simp_all add: new_def)
  have n4: "length [3, 4 :: int] + 2 = (4 :: nat)" by simp
  note pf = partial_flush [of ?ds toy_prng IntegersDataset 30 "[2, 0, 1, 3, 4]" m' ?m]
  from pf h(1) e prng_ok_toy
  have c1: "\<exists>k kept mk.
         traverse toy_prng IntegersDataset k (?ds\<lparr>shuffle_buffer := 1\<rparr>) = Some (kept, None, mk)
         \<and> [2, 0, 1, 3, 4] = bursts toy_prng (shuffle_seed ?ds) (nat (shuffle_buffer ?ds)) kept
         \<and> length [2, 0, 1, 3, 4 :: int] = length kept
         \<and> mset [2, 0, 1, 3, 4] = mset kept"
    by blast
  from pf h2
  have c2: "\<exists>m2. run toy_prng IntegersDataset (length (buffer (self ?m)) + 2) ?m =
           Some (shuffle toy_prng (shuffle_seed (self ?m)) (buffer (self ?m)), None, m2)"
    by blast
  from c1 have c1': "\<exists>k kept mk.
         traverse toy_prng IntegersDataset k (?ds\<lparr>shuffle_buffer := 1\<rparr>) = Some (kept, None, mk)
         \<and> [2, 0, 1, 3, 4] = bursts toy_prng 42 3 kept
         \<and> length [2, 0, 1, 3, 4 :: int] = length kept
         \<and> mset [2, 0, 1, 3, 4] = mset kept"
    unfolding h(2,3) .
  from c2 have c2': "\<exists>m2. run toy_prng IntegersDataset 4 ?m = Some (shuffle toy_prng 42 [3, 4], None, m2)"
    unfolding v(2,3) n4 .
  from h(1) prng_ok_toy o c1' c2' show ?thesis by blast
qed

end
